theory Spec2Isabelle
  imports Complex_Main "HOL-Library.Multiset"
begin

section \<open>Data model (src/types: AICategory, NewsItem)\<close>

text \<open>
  The ten labels of the enum \<open>AICategory\<close>, in declaration order.
\<close>

datatype AICategory =
    AI_MODELS | AI_ASSISTANT | AI_AGENT | AI_IDE | AI_CLI
  | AI_SEARCH | AI_INTEGRATION | AI_MULTIMODAL | AI_NOCODE | AI_DATA_ANALYSIS

text \<open>
  Text that the classifier inspects is a JavaScript string: a sequence of UTF-16 code
  units, so that \<open>length\<close> is what \<open>.length\<close> returns. Identifiers, links and source
  names are only ever compared for equality and tested for emptiness; they are kept as
  \<open>string\<close>. A \<open>Date\<close> is its \<open>getTime()\<close> value, the milliseconds since the epoch;
  invalid dates (\<open>NaN\<close>) are outside the model.
\<close>

type_synonym jsstring = "nat list"

record NewsItem =
  item_id :: string
  title :: jsstring
  description :: jsstring
  link :: string
  pubDate :: int
  source :: string
  category :: AICategory
  content :: "jsstring option"
  createdAt :: int

section \<open>StorageService (src/services/StorageService.ts)\<close>

text \<open>
  \<open>newsItems\<close> is a JavaScript \<open>Map\<close>: keys are unique and iteration follows insertion
  order. It is modelled as an association list in insertion order. \<open>Map.set\<close> on a key
  that is present replaces the value in place; on a new key it appends.
\<close>

type_synonym newsMap = "(string \<times> NewsItem) list"

record StorageService =
  newsItems :: newsMap
  maxItems :: int
  maxAgeInDays :: int

fun map_set :: "'k \<Rightarrow> 'v \<Rightarrow> ('k \<times> 'v) list \<Rightarrow> ('k \<times> 'v) list" where
  "map_set k v [] = [(k, v)]"
| "map_set k v (p # ps) = (if fst p = k then (k, v) # ps else p # map_set k v ps)"

definition map_has :: "string \<Rightarrow> newsMap \<Rightarrow> bool" where
  "map_has k m = (map_of m k \<noteq> None)"

definition map_delete :: "string \<Rightarrow> newsMap \<Rightarrow> newsMap" where
  "map_delete k m = filter (\<lambda>p. fst p \<noteq> k) m"

definition map_values :: "newsMap \<Rightarrow> NewsItem list" where
  "map_values m = map snd m"

text \<open>The constructor \<open>new StorageService(maxItems = 1000, maxAgeInDays = 7)\<close>.\<close>

definition newStorageService :: "int \<Rightarrow> int \<Rightarrow> StorageService" where
  "newStorageService mi ma = \<lparr>newsItems = [], maxItems = mi, maxAgeInDays = ma\<rparr>"

definition getNewsItem :: "StorageService \<Rightarrow> string \<Rightarrow> NewsItem option" where
  "getNewsItem s k = map_of (newsItems s) k"

definition getItemCount :: "StorageService \<Rightarrow> nat" where
  "getItemCount s = length (newsItems s)"

text \<open>
  \<open>isDuplicate\<close>: the id is a key of the map, or some stored item has the same link and a
  publication time at most one hour (3600000 ms) away.
\<close>

definition oneHour :: int where
  "oneHour = 60 * 60 * 1000"

definition isDuplicate :: "StorageService \<Rightarrow> NewsItem \<Rightarrow> bool" where
  "isDuplicate s newsItem =
     (if map_has (item_id newsItem) (newsItems s) then True
      else list_ex (\<lambda>existing. link existing = link newsItem \<and>
                      \<bar>pubDate existing - pubDate newsItem\<bar> \<le> oneHour)
             (map_values (newsItems s)))"

text \<open>
  \<open>cleanupOldItems\<close> reads the clock (\<open>new Date()\<close>) and moves it back with
  \<open>cutoffDate.setDate(cutoffDate.getDate() - this.maxAgeInDays)\<close>. \<open>Date\<close> is a built-in
  that works in the local time zone of the host, so a reading of the clock carries, with
  the time value, the two offset functions of that zone as ECMAScript has them:
  \<open>LocalTZA(t, true)\<close>, the offset in force at the instant \<open>t\<close>, and \<open>LocalTZA(t, false)\<close>,
  the offset in force at the local time \<open>t\<close>. Nothing is assumed about the two functions.

  \<open>getDate()\<close> is the day of the month of the local time \<open>t\<close>, and \<open>setDate(dt)\<close> stores
  \<open>UTC(MakeDate(MakeDay(YearFromTime(t), MonthFromTime(t), dt), TimeWithinDay(t)))\<close>.
  \<open>MakeDay\<close> counts days from the first of the month of \<open>t\<close>, so with
  \<open>dt = getDate() - maxAgeInDays\<close> it is the day number of \<open>t\<close> less \<open>maxAgeInDays\<close>.
  Time values beyond the range of \<open>Date\<close> (\<open>TimeClip\<close>) are outside the model.
\<close>

record clock_reading =
  getTime :: int
  localTZA_utc :: "int \<Rightarrow> int"
  localTZA_local :: "int \<Rightarrow> int"

definition msPerDay :: int where
  "msPerDay = 24 * 60 * 60 * 1000"

definition LocalTime :: "clock_reading \<Rightarrow> int \<Rightarrow> int" where
  "LocalTime now t = t + localTZA_utc now t"

definition UTC_of_local :: "clock_reading \<Rightarrow> int \<Rightarrow> int" where
  "UTC_of_local now t = t - localTZA_local now t"

definition Day :: "int \<Rightarrow> int" where
  "Day t = t div msPerDay"

definition TimeWithinDay :: "int \<Rightarrow> int" where
  "TimeWithinDay t = t mod msPerDay"

definition MakeDate :: "int \<Rightarrow> int \<Rightarrow> int" where
  "MakeDate day time = day * msPerDay + time"

definition cutoffDate :: "clock_reading \<Rightarrow> StorageService \<Rightarrow> int" where
  "cutoffDate now s =
     (let t = LocalTime now (getTime now);
          newDate = MakeDate (Day t - maxAgeInDays s) (TimeWithinDay t)
      in UTC_of_local now newDate)"

text \<open>
  A reading of the clock on a host whose zone is UTC, and one on a host whose zone has
  the offset \<open>before\<close> up to the instant \<open>change\<close> and the offset \<open>after\<close> from then on (a
  local time that occurs twice or not at all is read with the offset \<open>before\<close>, as
  ECMAScript does).
\<close>

definition utcClock :: "int \<Rightarrow> clock_reading" where
  "utcClock t = \<lparr>getTime = t, localTZA_utc = (\<lambda>u. 0), localTZA_local = (\<lambda>l. 0)\<rparr>"

definition zoneClock :: "int \<Rightarrow> int \<Rightarrow> int \<Rightarrow> int \<Rightarrow> clock_reading" where
  "zoneClock change before after t =
     \<lparr>getTime = t,
      localTZA_utc = (\<lambda>u. if u < change then before else after),
      localTZA_local = (\<lambda>l. if l < change + max before after then before else after)\<rparr>"

text \<open>
  Deleting from a \<open>Map\<close> while iterating over it visits every other entry exactly once,
  so the loop of \<open>cleanupOldItems\<close> is a filter.
\<close>

definition cleanupOldItems :: "clock_reading \<Rightarrow> StorageService \<Rightarrow> StorageService" where
  "cleanupOldItems now s =
     s\<lparr>newsItems := filter (\<lambda>p. \<not> pubDate (snd p) < cutoffDate now s) (newsItems s)\<rparr>"

text \<open>
  \<open>enforceMemoryLimit\<close>: while the map holds more than \<open>maxItems\<close> entries, sort the
  entries by publication time ascending (\<open>Array.prototype.sort\<close> is stable, as is
  \<open>sort_key\<close>) and delete the key of the first one; the loop breaks when there is no
  entry left.
\<close>

function enforceMemoryLimit :: "StorageService \<Rightarrow> StorageService" where
  "enforceMemoryLimit s =
     (if int (length (newsItems s)) > maxItems s then
        (case sort_key (\<lambda>p. pubDate (snd p)) (newsItems s) of
           [] \<Rightarrow> s
         | oldestItem # _ \<Rightarrow>
             enforceMemoryLimit (s\<lparr>newsItems := map_delete (fst oldestItem) (newsItems s)\<rparr>))
      else s)"
  by pat_completeness auto

termination enforceMemoryLimit
proof (relation "measure (\<lambda>s. length (newsItems s))")
  show "wf (measure (\<lambda>s. length (newsItems s)))" by simp
next
  fix s :: StorageService and x21 x22
  assume srt: "sort_key (\<lambda>p. pubDate (snd p)) (newsItems s) = x21 # x22"
  have "x21 \<in> set (sort_key (\<lambda>p. pubDate (snd p)) (newsItems s))"
    by (simp add: srt)
  then have mem: "x21 \<in> set (newsItems s)" by simp
  have "length (filter (\<lambda>p. fst p \<noteq> fst x21) (newsItems s)) < length (newsItems s)"
    by (rule length_filter_less [OF mem]) simp
  then show "(s\<lparr>newsItems := map_delete (fst x21) (newsItems s)\<rparr>, s)
               \<in> measure (\<lambda>s. length (newsItems s))"
    by (simp add: map_delete_def)
qed

declare enforceMemoryLimit.simps [simp del]

text \<open>
  \<open>saveNewsItem\<close>: a duplicate is rejected before anything is written. Otherwise the item
  is stored under its id, then the retention cleanup and the capacity limit run, and the
  result is \<open>true\<close>. Nothing in the body can throw on well-typed input, so the \<open>catch\<close>
  branch has no counterpart.
\<close>

definition saveNewsItem :: "clock_reading \<Rightarrow> StorageService \<Rightarrow> NewsItem \<Rightarrow> bool \<times> StorageService" where
  "saveNewsItem now s newsItem =
     (if isDuplicate s newsItem then (False, s)
      else
        let s1 = s\<lparr>newsItems := map_set (item_id newsItem) newsItem (newsItems s)\<rparr>;
            s2 = cleanupOldItems now s1;
            s3 = enforceMemoryLimit s2
        in (True, s3))"

text \<open>
  \<open>saveNewsItems\<close>: the batch loop, counting the saves that returned \<open>true\<close>. Every save
  reads the clock anew; the model gives all of them the same reading \<open>now\<close>.
\<close>

fun saveNewsItems :: "clock_reading \<Rightarrow> StorageService \<Rightarrow> NewsItem list \<Rightarrow> nat \<times> StorageService" where
  "saveNewsItems now s [] = (0, s)"
| "saveNewsItems now s (item # items) =
     (let (saved, s1) = saveNewsItem now s item;
          (savedCount, s2) = saveNewsItems now s1 items
      in ((if saved then 1 else 0) + savedCount, s2))"

text \<open>
  \<open>getNewsItems\<close>. An option of the filter is applied when it is truthy: a present,
  non-empty string, a present non-zero number, any present \<open>Date\<close>; the category
  \<open>'all'\<close> is the wildcard. \<open>limit\<close> and \<open>offset\<close> are integers here (fractions and
  \<open>NaN\<close> are outside the model); \<open>slice\<close> counts a negative index from the end.
\<close>

datatype category_option = AllCategories | Category AICategory

record StorageFilterOptions =
  opt_category :: "category_option option"
  opt_startDate :: "int option"
  opt_endDate :: "int option"
  opt_source :: "string option"
  opt_limit :: "int option"
  opt_offset :: "int option"

definition noOptions :: StorageFilterOptions where
  "noOptions = \<lparr>opt_category = None, opt_startDate = None, opt_endDate = None,
     opt_source = None, opt_limit = None, opt_offset = None\<rparr>"

definition relative_index :: "int \<Rightarrow> nat \<Rightarrow> nat" where
  "relative_index i len = (if i < 0 then nat (max (int len + i) 0) else nat (min i (int len)))"

definition slice_from :: "int \<Rightarrow> 'a list \<Rightarrow> 'a list" where
  "slice_from start xs = drop (relative_index start (length xs)) xs"

definition slice_to :: "int \<Rightarrow> 'a list \<Rightarrow> 'a list" where
  "slice_to stop xs = take (relative_index stop (length xs)) xs"

definition filter_category :: "StorageFilterOptions \<Rightarrow> NewsItem list \<Rightarrow> NewsItem list" where
  "filter_category options items =
     (case opt_category options of
        Some (Category c) \<Rightarrow> filter (\<lambda>item. category item = c) items
      | _ \<Rightarrow> items)"

definition filter_startDate :: "StorageFilterOptions \<Rightarrow> NewsItem list \<Rightarrow> NewsItem list" where
  "filter_startDate options items =
     (case opt_startDate options of
        Some d \<Rightarrow> filter (\<lambda>item. pubDate item \<ge> d) items
      | None \<Rightarrow> items)"

definition filter_endDate :: "StorageFilterOptions \<Rightarrow> NewsItem list \<Rightarrow> NewsItem list" where
  "filter_endDate options items =
     (case opt_endDate options of
        Some d \<Rightarrow> filter (\<lambda>item. pubDate item \<le> d) items
      | None \<Rightarrow> items)"

definition filter_source :: "StorageFilterOptions \<Rightarrow> NewsItem list \<Rightarrow> NewsItem list" where
  "filter_source options items =
     (case opt_source options of
        Some src \<Rightarrow> if src \<noteq> [] then filter (\<lambda>item. source item = src) items else items
      | None \<Rightarrow> items)"

definition sort_newest_first :: "NewsItem list \<Rightarrow> NewsItem list" where
  "sort_newest_first items = sort_key (\<lambda>item. - pubDate item) items"

definition apply_offset :: "StorageFilterOptions \<Rightarrow> NewsItem list \<Rightarrow> NewsItem list" where
  "apply_offset options items =
     (case opt_offset options of
        Some off \<Rightarrow> if off \<noteq> 0 then slice_from off items else items
      | None \<Rightarrow> items)"

definition apply_limit :: "StorageFilterOptions \<Rightarrow> NewsItem list \<Rightarrow> NewsItem list" where
  "apply_limit options items =
     (case opt_limit options of
        Some n \<Rightarrow> if n \<noteq> 0 then slice_to n items else items
      | None \<Rightarrow> items)"

definition getNewsItems :: "StorageService \<Rightarrow> StorageFilterOptions \<Rightarrow> NewsItem list" where
  "getNewsItems s options =
     apply_limit options
       (apply_offset options
         (sort_newest_first
           (filter_source options
             (filter_endDate options
               (filter_startDate options
                 (filter_category options (map_values (newsItems s))))))))"

text \<open>
  \<open>updateNewsItem\<close>: \<open>updates\<close> is a \<open>Partial<NewsItem>\<close>; a field that is present
  overrides the stored one in the object spread, the \<open>id\<close> field included. The result is
  written back under the key that was looked up.
\<close>

record NewsItemUpdates =
  upd_id :: "string option"
  upd_title :: "jsstring option"
  upd_description :: "jsstring option"
  upd_link :: "string option"
  upd_pubDate :: "int option"
  upd_source :: "string option"
  upd_category :: "AICategory option"
  upd_content :: "jsstring option option"
  upd_createdAt :: "int option"

definition noUpdates :: NewsItemUpdates where
  "noUpdates = \<lparr>upd_id = None, upd_title = None, upd_description = None, upd_link = None,
     upd_pubDate = None, upd_source = None, upd_category = None, upd_content = None,
     upd_createdAt = None\<rparr>"

definition override :: "'a \<Rightarrow> 'a option \<Rightarrow> 'a" where
  "override old new = (case new of None \<Rightarrow> old | Some v \<Rightarrow> v)"

definition spread :: "NewsItem \<Rightarrow> NewsItemUpdates \<Rightarrow> NewsItem" where
  "spread existingItem updates =
     \<lparr>item_id = override (item_id existingItem) (upd_id updates),
      title = override (title existingItem) (upd_title updates),
      description = override (description existingItem) (upd_description updates),
      link = override (link existingItem) (upd_link updates),
      pubDate = override (pubDate existingItem) (upd_pubDate updates),
      source = override (source existingItem) (upd_source updates),
      category = override (category existingItem) (upd_category updates),
      content = override (content existingItem) (upd_content updates),
      createdAt = override (createdAt existingItem) (upd_createdAt updates)\<rparr>"

definition updateNewsItem ::
  "StorageService \<Rightarrow> string \<Rightarrow> NewsItemUpdates \<Rightarrow> bool \<times> StorageService" where
  "updateNewsItem s k updates =
     (case map_of (newsItems s) k of
        None \<Rightarrow> (False, s)
      | Some existingItem \<Rightarrow>
          (True, s\<lparr>newsItems := map_set k (spread existingItem updates) (newsItems s)\<rparr>))"

definition deleteNewsItem :: "StorageService \<Rightarrow> string \<Rightarrow> bool \<times> StorageService" where
  "deleteNewsItem s k =
     (map_has k (newsItems s), s\<lparr>newsItems := map_delete k (newsItems s)\<rparr>)"

text \<open>
  \<open>checkDataIntegrity\<close> scans the entries and records an issue for an item with an empty
  required field and for an item whose \<open>id\<close> differs from its key. Its two date checks
  and its category check cannot fail on the values of this model (a date is a number,
  a category is one of the ten labels), so they add no issue here.
\<close>

datatype integrity_issue =
    MissingRequiredFields string
  | IdMismatch string string

record IntegrityReport =
  isValid :: bool
  issues :: "integrity_issue list"
  totalItems :: nat
  validItems :: nat

definition item_issues :: "string \<times> NewsItem \<Rightarrow> integrity_issue list" where
  "item_issues entry =
     (let k = fst entry; item = snd entry in
        (if item_id item = [] \<or> title item = [] \<or> link item = [] \<or> source item = []
         then [MissingRequiredFields k] else []) @
        (if item_id item \<noteq> k then [IdMismatch k (item_id item)] else []))"

definition checkDataIntegrity :: "StorageService \<Rightarrow> IntegrityReport" where
  "checkDataIntegrity s =
     (let found = concat (map item_issues (newsItems s)) in
        \<lparr>isValid = (found = []),
         issues = found,
         totalItems = length (newsItems s),
         validItems = length (filter (\<lambda>entry. item_issues entry = []) (newsItems s))\<rparr>)"

text \<open>
  The operations that change the store, as a datatype, and a run of them from a fresh
  store. Each save carries the clock reading it sees.
\<close>

datatype store_op =
    Save clock_reading NewsItem
  | SaveAll clock_reading "NewsItem list"
  | Update string NewsItemUpdates
  | Delete string

fun apply_op :: "StorageService \<Rightarrow> store_op \<Rightarrow> StorageService" where
  "apply_op s (Save now item) = snd (saveNewsItem now s item)"
| "apply_op s (SaveAll now items) = snd (saveNewsItems now s items)"
| "apply_op s (Update k updates) = snd (updateNewsItem s k updates)"
| "apply_op s (Delete k) = snd (deleteNewsItem s k)"

definition run_ops :: "StorageService \<Rightarrow> store_op list \<Rightarrow> StorageService" where
  "run_ops s ops = foldl apply_op s ops"

text \<open>
  An item as the tests of the store build them: an id, a link and a publication time,
  with fixed remaining fields.
\<close>

definition testItem :: "string \<Rightarrow> string \<Rightarrow> int \<Rightarrow> NewsItem" where
  "testItem i l d =
     \<lparr>item_id = i, title = [78, 101, 119, 115], description = [], link = l, pubDate = d,
      source = ''Source A'', category = AI_MODELS, content = None, createdAt = d\<rparr>"

text \<open>
  The store invariant that \<open>checkDataIntegrity\<close> tests as "ID consistency": every item
  is stored under its own id. The keys of a \<open>Map\<close> are distinct.
\<close>

definition store_invariant :: "StorageService \<Rightarrow> bool" where
  "store_invariant s =
     (list_all (\<lambda>entry. item_id (snd entry) = fst entry) (newsItems s)
      \<and> distinct (map fst (newsItems s)))"

definition stored_ids :: "StorageService \<Rightarrow> string list" where
  "stored_ids s = map (\<lambda>entry. item_id (snd entry)) (newsItems s)"

text \<open>
  The query as the specification words it (section 4.4, "Query"): keep the items that
  pass every filter that is given, sort by publication time descending, drop \<open>offset\<close>
  items, keep \<open>limit\<close> items.
\<close>

definition spec_passes :: "StorageFilterOptions \<Rightarrow> NewsItem \<Rightarrow> bool" where
  "spec_passes options item =
     ((case opt_category options of
         None \<Rightarrow> True | Some AllCategories \<Rightarrow> True | Some (Category c) \<Rightarrow> category item = c)
      \<and> (case opt_source options of None \<Rightarrow> True | Some src \<Rightarrow> source item = src)
      \<and> (case opt_startDate options of None \<Rightarrow> True | Some d \<Rightarrow> d \<le> pubDate item)
      \<and> (case opt_endDate options of None \<Rightarrow> True | Some d \<Rightarrow> pubDate item \<le> d))"

definition spec_page :: "StorageFilterOptions \<Rightarrow> 'a list \<Rightarrow> 'a list" where
  "spec_page options xs =
     (let dropped = (case opt_offset options of None \<Rightarrow> xs | Some k \<Rightarrow> drop (nat k) xs)
      in case opt_limit options of None \<Rightarrow> dropped | Some n \<Rightarrow> take (nat n) dropped)"

definition spec_query :: "StorageService \<Rightarrow> StorageFilterOptions \<Rightarrow> NewsItem list" where
  "spec_query s options =
     spec_page options
       (sort_newest_first (filter (spec_passes options) (map_values (newsItems s))))"

text \<open>
  The query as the amended claim C8 words it: an empty source string and a limit of 0
  count as absent, a negative offset keeps only the last \<open>|offset|\<close> items of the sorted
  list, and a negative limit drops the last \<open>|limit|\<close> items of what the offset left.
\<close>

definition amended_passes :: "StorageFilterOptions \<Rightarrow> NewsItem \<Rightarrow> bool" where
  "amended_passes options item =
     ((case opt_category options of
         None \<Rightarrow> True | Some AllCategories \<Rightarrow> True | Some (Category c) \<Rightarrow> category item = c)
      \<and> (case opt_source options of
           None \<Rightarrow> True | Some src \<Rightarrow> src = [] \<or> source item = src)
      \<and> (case opt_startDate options of None \<Rightarrow> True | Some d \<Rightarrow> d \<le> pubDate item)
      \<and> (case opt_endDate options of None \<Rightarrow> True | Some d \<Rightarrow> pubDate item \<le> d))"

definition amended_page :: "StorageFilterOptions \<Rightarrow> 'a list \<Rightarrow> 'a list" where
  "amended_page options xs =
     (let dropped =
            (case opt_offset options of
               None \<Rightarrow> xs
             | Some k \<Rightarrow> if 0 \<le> k then drop (nat k) xs else drop (length xs - nat (- k)) xs)
      in case opt_limit options of
           None \<Rightarrow> dropped
         | Some n \<Rightarrow>
             if n = 0 then dropped
             else if 0 < n then take (nat n) dropped
             else take (length dropped - nat (- n)) dropped)"

definition amended_query :: "StorageService \<Rightarrow> StorageFilterOptions \<Rightarrow> NewsItem list" where
  "amended_query s options =
     amended_page options
       (sort_newest_first (filter (amended_passes options) (map_values (newsItems s))))"

text \<open>An operation that leaves the id of every stored item alone.\<close>

fun keeps_id :: "store_op \<Rightarrow> bool" where
  "keeps_id (Update k updates) = (upd_id updates = None \<or> upd_id updates = Some k)"
| "keeps_id _ = True"

text \<open>A store of three items, saved in an order that is not their order in time.\<close>

definition queryStore :: StorageService where
  "queryStore = snd (saveNewsItems (utcClock 10800000) (newStorageService 1000 7)
     [testItem ''test-1'' ''u1'' 3600000, testItem ''test-2'' ''u2'' 7200000,
      testItem ''test-3'' ''u3'' 0])"

section \<open>ClassificationService (src/services/ClassificationService.ts)\<close>

text \<open>A string literal of the source, as code units.\<close>

definition ascii :: "string \<Rightarrow> jsstring" where
  "ascii s = map of_char s"

text \<open>
  \<open>String.prototype.toLowerCase\<close> is a built-in that folds case by the Unicode tables of
  the engine. Where the classifier applies it to the text of an item it is a parameter
  \<open>lower\<close> of the model, of which nothing is assumed. The keywords are constants of the
  source: they hold no cased character other than the letters A to Z, so on them
  \<open>toLowerCase\<close> changes exactly those letters, which is \<open>toLowerCase_ascii\<close>. That function
  is also what \<open>toLowerCase\<close> does on a text of ASCII characters.
\<close>

type_synonym case_folding = "jsstring \<Rightarrow> jsstring"

definition toLowerCase_ascii :: case_folding where
  "toLowerCase_ascii text = map (\<lambda>c. if 65 \<le> c \<and> c \<le> 90 then c + 32 else c) text"

text \<open>
  The keyword dictionary of \<open>initializeKeywordDictionary\<close>, in the order of the object
  literal, which is the order \<open>Object.keys\<close> and \<open>Object.entries\<close> iterate in. The field is
  written once, by the constructor.
\<close>

definition keywordDictionary :: "(AICategory \<times> jsstring list) list" where
  "keywordDictionary =
   [
    (AI_MODELS,
      [ascii ''GPT'', ascii ''ChatGPT'', ascii ''LLM'', ascii ''Large Language Model'',
       [22823, 35215, 27169, 35328, 35486, 12514, 12487, 12523], ascii ''BERT'',
       ascii ''Transformer'', ascii ''OpenAI'', ascii ''Claude'', ascii ''Gemini'',
       ascii ''Llama'', [12514, 12487, 12523], ascii ''model'', [23398, 32722],
       ascii ''training'', ascii ''fine-tuning'',
       [12501, 12449, 12452, 12531, 12481, 12517, 12540, 12491, 12531, 12464],
       ascii ''neural network'',
       [12491, 12517, 12540, 12521, 12523, 12493, 12483, 12488, 12527, 12540, 12463],
       ascii ''deep learning'',
       [12487, 12451, 12540, 12503, 12521, 12540, 12491, 12531, 12464],
       ascii ''machine learning'', [27231, 26800, 23398, 32722], ascii ''AI model'',
       [65, 73, 12514, 12487, 12523]]),
    (AI_ASSISTANT,
      [ascii ''ChatGPT'', ascii ''Siri'', ascii ''Alexa'', ascii ''Google Assistant'',
       ascii ''Cortana'', [12450, 12471, 12473, 12479, 12531, 12488], ascii ''assistant'',
       [12481, 12515, 12483, 12488, 12508, 12483, 12488], ascii ''chatbot'', ascii ''bot'',
       [23550, 35441], ascii ''conversation'', ascii ''chat'',
       [12481, 12515, 12483, 12488], [20250, 35441], ascii ''virtual assistant'',
       [12496, 12540, 12481, 12515, 12523, 12450, 12471, 12473, 12479, 12531, 12488],
       [65, 73, 21161, 25163], [65, 73, 31192, 26360]]),
    (AI_AGENT,
      [ascii ''agent'', [12456, 12540, 12472, 12455, 12531, 12488], ascii ''autonomous'',
       [33258, 24459], ascii ''automation'', [33258, 21205, 21270], ascii ''workflow'',
       [12527, 12540, 12463, 12501, 12525, 12540], ascii ''task automation'',
       [12479, 12473, 12463, 33258, 21205, 21270], ascii ''intelligent agent'',
       [12452, 12531, 12486, 12522, 12472, 12455, 12531, 12488, 12456, 12540, 12472, 12455, 12531, 12488],
       ascii ''AI agent'', [65, 73, 12456, 12540, 12472, 12455, 12531, 12488],
       ascii ''multi-agent'',
       [12510, 12523, 12481, 12456, 12540, 12472, 12455, 12531, 12488],
       ascii ''agent system'',
       [12456, 12540, 12472, 12455, 12531, 12488, 12471, 12473, 12486, 12512]]),
    (AI_IDE,
      [ascii ''IDE'', ascii ''editor'', [12456, 12487, 12451, 12479], ascii ''code'',
       [12467, 12540, 12489], ascii ''programming'',
       [12503, 12525, 12464, 12521, 12511, 12531, 12464], ascii ''development'',
       [38283, 30330], ascii ''coding'', [12467, 12540, 12487, 12451, 12531, 12464],
       ascii ''GitHub Copilot'', ascii ''Copilot'', ascii ''code completion'',
       [12467, 12540, 12489, 35036, 23436], ascii ''code generation'',
       [12467, 12540, 12489, 29983, 25104], ascii ''VS Code'', ascii ''Visual Studio'',
       ascii ''IntelliJ'', ascii ''development environment'', [38283, 30330, 29872, 22659]]),
    (AI_CLI,
      [ascii ''CLI'', ascii ''command line'',
       [12467, 12510, 12531, 12489, 12521, 12452, 12531], ascii ''terminal'',
       [12479, 12540, 12511, 12490, 12523], ascii ''shell'', [12471, 12455, 12523],
       ascii ''command'', [12467, 12510, 12531, 12489], ascii ''bash'', ascii ''zsh'',
       ascii ''CLI tool'', [67, 76, 73, 12484, 12540, 12523], ascii ''command line tool'',
       [12467, 12510, 12531, 12489, 12521, 12452, 12531, 12484, 12540, 12523],
       ascii ''terminal AI'', [12479, 12540, 12511, 12490, 12523, 65, 73]]),
    (AI_SEARCH,
      [ascii ''search'', [26908, 32034], ascii ''knowledge base'',
       [12490, 12524, 12483, 12472, 12505, 12540, 12473], ascii ''knowledge'',
       ascii ''information retrieval'', [24773, 22577, 26908, 32034],
       ascii ''semantic search'',
       [12475, 12510, 12531, 12486, 12451, 12483, 12463, 26908, 32034],
       ascii ''vector search'', [12505, 12463, 12488, 12523, 26908, 32034], ascii ''RAG'',
       ascii ''retrieval'', [26908, 32034, 25313, 24373, 29983, 25104], ascii ''database'',
       [12487, 12540, 12479, 12505, 12540, 12473], ascii ''index'',
       [12452, 12531, 12487, 12483, 12463, 12473], ascii ''Elasticsearch'']),
    (AI_INTEGRATION,
      [ascii ''integration'', [32113, 21512], ascii ''SaaS'', ascii ''API'',
       ascii ''webhook'', ascii ''Zapier'', ascii ''Make'', ascii ''workflow automation'',
       [12527, 12540, 12463, 12501, 12525, 12540, 33258, 21205, 21270],
       ascii ''business process'',
       [12499, 12472, 12493, 12473, 12503, 12525, 12475, 12473], ascii ''enterprise'',
       [12456, 12531, 12479, 12540, 12503, 12521, 12452, 12474], ascii ''platform'',
       [12503, 12521, 12483, 12488, 12501, 12457, 12540, 12512], ascii ''connector'',
       [12467, 12493, 12463, 12479], ascii ''middleware'',
       [12511, 12489, 12523, 12454, 12455, 12450]]),
    (AI_MULTIMODAL,
      [ascii ''multimodal'', [12510, 12523, 12481, 12514, 12540, 12480, 12523],
       ascii ''voice'', [38899, 22768], ascii ''speech'', [12473, 12500, 12540, 12481],
       ascii ''image'', [30011, 20687], ascii ''video'', [21205, 30011], ascii ''vision'',
       [12499, 12472, 12519, 12531], ascii ''audio'', [12458, 12540, 12487, 12451, 12458],
       ascii ''text-to-speech'', ascii ''speech-to-text'', [38899, 22768, 35469, 35672],
       [38899, 22768, 21512, 25104], ascii ''computer vision'',
       [12467, 12531, 12500, 12517, 12540, 12479, 12499, 12472, 12519, 12531],
       ascii ''OCR'', ascii ''image recognition'', [30011, 20687, 35469, 35672]]),
    (AI_NOCODE,
      [ascii ''no-code'', [12494, 12540, 12467, 12540, 12489], ascii ''low-code'',
       [12525, 12540, 12467, 12540, 12489], ascii ''drag and drop'',
       [12489, 12521, 12483, 12464, 12450, 12531, 12489, 12489, 12525, 12483, 12503],
       ascii ''visual programming'',
       [12499, 12472, 12517, 12450, 12523, 12503, 12525, 12464, 12521, 12511, 12531, 12464],
       ascii ''builder'', [12499, 12523, 12480, 12540], ascii ''template'',
       [12486, 12531, 12503, 12524, 12540, 12488], ascii ''workflow builder'',
       [12527, 12540, 12463, 12501, 12525, 12540, 12499, 12523, 12480, 12540],
       ascii ''automation platform'',
       [33258, 21205, 21270, 12503, 12521, 12483, 12488, 12501, 12457, 12540, 12512]]),
    (AI_DATA_ANALYSIS,
      [ascii ''data analysis'', [12487, 12540, 12479, 20998, 26512], ascii ''analytics'',
       [12450, 12490, 12522, 12486, 12451, 12463, 12473], ascii ''visualization'',
       [21487, 35222, 21270], ascii ''dashboard'',
       [12480, 12483, 12471, 12517, 12508, 12540, 12489], ascii ''report'',
       [12524, 12509, 12540, 12488], ascii ''insight'',
       [12452, 12531, 12469, 12452, 12488], ascii ''business intelligence'', ascii ''BI'',
       ascii ''data science'', [12487, 12540, 12479, 12469, 12452, 12456, 12531, 12473],
       ascii ''statistics'', [32113, 35336], ascii ''metrics'',
       [12513, 12488, 12522, 12463, 12473], ascii ''KPI'', ascii ''data mining'',
       [12487, 12540, 12479, 12510, 12452, 12491, 12531, 12464]])
   ]"

record ClassificationService =
  defaultCategory :: AICategory
  minConfidenceThreshold :: real
  classificationStats :: "(AICategory \<times> nat) list"

definition newClassificationService :: ClassificationService where
  "newClassificationService =
     \<lparr>defaultCategory = AI_MODELS, minConfidenceThreshold = 0.1, classificationStats = []\<rparr>"

record ClassificationResult =
  res_category :: AICategory
  confidence :: real
  matchedKeywords :: "jsstring list"

text \<open>
  \<open>text.match(new RegExp(keywordLower, 'g'))\<close>. No keyword of the dictionary contains a
  character that is special in a regular expression (\<open>keywords_literal\<close> below), so the
  pattern matches at an index exactly if the keyword itself stands there, code unit for
  code unit (there is no \<open>i\<close> and no \<open>u\<close> flag).

  \<open>regexp_exec\<close> is one call of \<open>RegExpBuiltinExec\<close>: starting at \<open>lastIndex\<close> it tries
  every index up to the length of the text and returns the first one at which the
  pattern matches. \<open>match_loop\<close> is the loop of \<open>String.prototype.match\<close> for a global
  expression: it collects the matches, resuming each search at the end of the last
  match, one further after an empty match. \<open>match\<close> returns \<open>null\<close> when there is no
  match, \<open>|| []\<close> makes that an empty array, and \<open>count_matches\<close> is the \<open>length\<close>.
\<close>

function regexp_exec :: "jsstring \<Rightarrow> jsstring \<Rightarrow> nat \<Rightarrow> nat option" where
  "regexp_exec pattern text lastIndex =
     (if lastIndex > length text then None
      else if take (length pattern) (drop lastIndex text) = pattern then Some lastIndex
      else regexp_exec pattern text (lastIndex + 1))"
  by pat_completeness auto
termination
  by (relation "measure (\<lambda>(pattern, text, lastIndex). length text + 1 - lastIndex)") auto

declare regexp_exec.simps [simp del]

function match_loop :: "jsstring \<Rightarrow> jsstring \<Rightarrow> nat \<Rightarrow> nat list" where
  "match_loop pattern text lastIndex =
     (case regexp_exec pattern text lastIndex of
        None \<Rightarrow> []
      | Some index \<Rightarrow>
          index # match_loop pattern text
                    (if pattern = [] then index + 1 else index + length pattern))"
  by pat_completeness auto
termination
proof (relation "measure (\<lambda>(pattern, text, lastIndex). length text + 1 - lastIndex)")
  show "wf (measure (\<lambda>(pattern :: jsstring, text :: jsstring, lastIndex). length text + 1 - lastIndex))"
    by simp
next
  fix pat str :: jsstring and lastIndex index :: nat
  assume found: "regexp_exec pat str lastIndex = Some index"
  have bounds: "regexp_exec p t i = Some k \<Longrightarrow> i \<le> k \<and> k + length p \<le> length t"
    for p t :: jsstring and i k :: nat
  proof (induction p t i rule: regexp_exec.induct)
    case (1 p t i)
    show ?case
    proof (cases "i > length t")
      case True
      with "1.prems" show ?thesis by (subst (asm) regexp_exec.simps) simp
    next
      case False
      show ?thesis
      proof (cases "take (length p) (drop i t) = p")
        case True
        then have "k = i"
          using "1.prems" False by (subst (asm) regexp_exec.simps) simp
        moreover have "length (take (length p) (drop i t)) = length p"
          using True by simp
        then have "i + length p \<le> length t" using False by simp
        ultimately show ?thesis by simp
      next
        case nomatch: False
        then have "regexp_exec p t (i + 1) = Some k"
          using "1.prems" False by (subst (asm) regexp_exec.simps) simp
        from "1.IH"[OF False nomatch this] show ?thesis by simp
      qed
    qed
  qed
  from bounds[OF found]
  show "((pat, str, if pat = [] then index + 1 else index + length pat), pat, str, lastIndex)
        \<in> measure (\<lambda>(pattern, text, lastIndex). length text + 1 - lastIndex)"
    by (cases pat) auto
qed

declare match_loop.simps [simp del]

definition count_matches :: "jsstring \<Rightarrow> jsstring \<Rightarrow> nat" where
  "count_matches pattern text = length (match_loop pattern text 0)"

definition regexp_special :: "nat list" where
  "regexp_special = [92, 94, 36, 46, 124, 63, 42, 43, 40, 41, 91, 93, 123, 125]"

text \<open>\<open>String.prototype.includes\<close>: the keyword occurs at some position of the text.\<close>

fun js_includes :: "jsstring \<Rightarrow> jsstring \<Rightarrow> bool" where
  "js_includes [] pattern = (pattern = [])"
| "js_includes (c # cs) pattern = (take (length pattern) (c # cs) = pattern \<or> js_includes cs pattern)"

definition getKeywordWeight :: "jsstring \<Rightarrow> real" where
  "getKeywordWeight keyword =
     (if length keyword > 10 then 3.0
      else if length keyword > 6 then 2.0
      else 1.0)"

text \<open>The inner loop of \<open>getKeywordMatches\<close>, with \<open>categoryScore\<close> as the accumulator.\<close>

fun keyword_loop :: "jsstring \<Rightarrow> jsstring list \<Rightarrow> real \<Rightarrow> real" where
  "keyword_loop text [] categoryScore = categoryScore"
| "keyword_loop text (keyword # keywords) categoryScore =
     (let keywordLower = toLowerCase_ascii keyword;
          matches = count_matches keywordLower text
      in keyword_loop text keywords
           (if matches > 0 then categoryScore + real matches * getKeywordWeight keyword
            else categoryScore))"

text \<open>
  \<open>getKeywordMatches\<close>: a \<open>Map\<close> from category to score. The first loop enters every
  category with score 0, the second sets the score of each category.
\<close>

fun init_scores ::
  "(AICategory \<times> jsstring list) list \<Rightarrow> (AICategory \<times> real) list \<Rightarrow> (AICategory \<times> real) list" where
  "init_scores [] scores = scores"
| "init_scores (entry # entries) scores = init_scores entries (map_set (fst entry) 0 scores)"

fun score_loop ::
  "jsstring \<Rightarrow> (AICategory \<times> jsstring list) list \<Rightarrow> (AICategory \<times> real) list
     \<Rightarrow> (AICategory \<times> real) list" where
  "score_loop text [] scores = scores"
| "score_loop text (entry # entries) scores =
     score_loop text entries (map_set (fst entry) (keyword_loop text (snd entry) 0) scores)"

definition getKeywordMatches :: "jsstring \<Rightarrow> (AICategory \<times> real) list" where
  "getKeywordMatches text =
     score_loop text keywordDictionary (init_scores keywordDictionary [])"

definition getKeywordsForCategory :: "AICategory \<Rightarrow> jsstring list" where
  "getKeywordsForCategory c = (case map_of keywordDictionary c of Some keywords \<Rightarrow> keywords | None \<Rightarrow> [])"

definition getMatchedKeywordsForCategory ::
  "case_folding \<Rightarrow> jsstring \<Rightarrow> AICategory \<Rightarrow> jsstring list" where
  "getMatchedKeywordsForCategory lower text c =
     filter (\<lambda>keyword. js_includes (lower text) (toLowerCase_ascii keyword))
       (getKeywordsForCategory c)"

text \<open>
  The loop of \<open>analyzeContent\<close> over the entries of the score map: a category replaces
  the best one only with a strictly higher score.
\<close>

fun best_loop ::
  "case_folding \<Rightarrow> jsstring \<Rightarrow> (AICategory \<times> real) list \<Rightarrow> AICategory \<times> real \<times> jsstring list
     \<Rightarrow> AICategory \<times> real \<times> jsstring list" where
  "best_loop lower text [] best = best"
| "best_loop lower text (entry # entries) (bestCategory, bestScore, matched) =
     (if snd entry > bestScore
      then best_loop lower text entries
             (fst entry, snd entry, getMatchedKeywordsForCategory lower text (fst entry))
      else best_loop lower text entries (bestCategory, bestScore, matched))"

definition combinedText :: "case_folding \<Rightarrow> jsstring \<Rightarrow> jsstring \<Rightarrow> jsstring" where
  "combinedText lower t d = lower (t @ [32] @ d)"

text \<open>
  A JavaScript number is an IEEE 754 binary64 value, here the real number it stands
  for. Counts, lengths, weights and scores are whole numbers, and their products and
  sums are exact (they stay below \<open>2^53\<close> for every text shorter than \<open>2^43\<close> code units,
  more than a JavaScript engine can hold in a string). The two divisions of
  \<open>analyzeContent\<close> are not exact: \<open>/\<close> returns the quotient rounded to the nearest
  binary64 value, a tie going to the value with the even significand. \<open>to_double\<close> is
  that rounding: a number with binary exponent \<open>e\<close> is rounded to a multiple of
  \<open>2^(e - 52)\<close>, and below the normal range (\<open>e < -1022\<close>) to a multiple of \<open>2^(-1074)\<close>.
  The quotients here are far below the overflow threshold, so infinities and \<open>NaN\<close> do
  not occur. \<open>Math.max\<close> and \<open>Math.min\<close> select one of their arguments.
\<close>

definition round_half_even :: "real \<Rightarrow> int" where
  "round_half_even q =
     (let f = \<lfloor>q\<rfloor>; r = q - of_int f
      in if r < 1 / 2 then f
         else if 1 / 2 < r then f + 1
         else if even f then f else f + 1)"

definition to_double :: "real \<Rightarrow> real" where
  "to_double x =
     (if x = 0 then 0
      else
        let e = max \<lfloor>log 2 \<bar>x\<bar>\<rfloor> (- 1022);
            ulp = 2 powr of_int (e - 52)
        in sgn x * of_int (round_half_even (\<bar>x\<bar> / ulp)) * ulp)"

definition fdiv :: "real \<Rightarrow> real \<Rightarrow> real" where
  "fdiv x y = to_double (x / y)"

definition analyzeContent ::
  "case_folding \<Rightarrow> ClassificationService \<Rightarrow> jsstring \<Rightarrow> jsstring \<Rightarrow> ClassificationResult" where
  "analyzeContent lower st t d =
     (let text = combinedText lower t d;
          categoryScores = getKeywordMatches text;
          (bestCategory, bestScore, matched) =
             best_loop lower text categoryScores (defaultCategory st, 0, []);
          textLength = length text;
          conf = min (fdiv bestScore (max (fdiv (real textLength) 100) 1)) 1.0
      in \<lparr>res_category = bestCategory, confidence = conf, matchedKeywords = matched\<rparr>)"

text \<open>
  \<open>classifyNews\<close>. Nothing in \<open>analyzeContent\<close> throws on an item whose title and
  description are strings, so the \<open>catch\<close> branch has no counterpart here.
\<close>

definition classifyNews :: "case_folding \<Rightarrow> ClassificationService \<Rightarrow> NewsItem \<Rightarrow> AICategory" where
  "classifyNews lower st newsItem =
     (let result = analyzeContent lower st (title newsItem) (description newsItem)
      in if confidence result < minConfidenceThreshold st then category newsItem
         else res_category result)"

datatype classifier_error = ThresholdOutOfRange

definition setConfidenceThreshold ::
  "ClassificationService \<Rightarrow> real \<Rightarrow> classifier_error + ClassificationService" where
  "setConfidenceThreshold st threshold =
     (if threshold \<ge> 0 \<and> threshold \<le> 1 then Inr (st\<lparr>minConfidenceThreshold := threshold\<rparr>)
      else Inl ThresholdOutOfRange)"

definition setDefaultCategory :: "ClassificationService \<Rightarrow> AICategory \<Rightarrow> ClassificationService" where
  "setDefaultCategory st c = st\<lparr>defaultCategory := c\<rparr>"

definition updateStats :: "ClassificationService \<Rightarrow> AICategory \<Rightarrow> ClassificationService" where
  "updateStats st c =
     (let currentCount = (case map_of (classificationStats st) c of Some n \<Rightarrow> n | None \<Rightarrow> 0)
      in st\<lparr>classificationStats := map_set c (currentCount + 1) (classificationStats st)\<rparr>)"

fun classifyNewsBatch ::
  "case_folding \<Rightarrow> ClassificationService \<Rightarrow> NewsItem list
     \<Rightarrow> NewsItem list \<times> ClassificationService" where
  "classifyNewsBatch lower st [] = ([], st)"
| "classifyNewsBatch lower st (item # items) =
     (let classifiedCategory = classifyNews lower st item;
          st1 = updateStats st classifiedCategory;
          (rest, st2) = classifyNewsBatch lower st1 items
      in (item\<lparr>category := classifiedCategory\<rparr> # rest, st2))"

text \<open>
  The classifier as the specification words it (section 4.3, steps 2 and 4). The
  occurrence count is a literal substring count: the text is read from left to right,
  an occurrence of the keyword counts one and reading goes on behind it, as the count
  functions of string libraries do. The score of a category is the sum over its
  keywords of occurrence count times weight. The confidence is the best score divided
  by the larger of a hundredth of the text length and 1, capped at 1, in the arithmetic
  of the source.
\<close>

function substring_count :: "jsstring \<Rightarrow> jsstring \<Rightarrow> nat" where
  "substring_count keyword text =
     (if keyword = [] then length text + 1
      else if length text < length keyword then 0
      else if take (length keyword) text = keyword
        then 1 + substring_count keyword (drop (length keyword) text)
        else substring_count keyword (tl text))"
  by pat_completeness auto
termination
proof (relation "measure (\<lambda>(keyword, text). length text)")
  show "wf (measure (\<lambda>(keyword :: jsstring, text :: jsstring). length text))" by simp
next
  fix p t :: jsstring
  assume "p \<noteq> []" and "\<not> length t < length p" and "take (length p) t = p"
  then have "0 < length p" and "length p \<le> length t" by simp_all
  then have "length t - length p < length t" by linarith
  then show "((p, drop (length p) t), p, t) \<in> measure (\<lambda>(keyword, text). length text)"
    by simp
next
  fix p t :: jsstring
  assume "p \<noteq> []" and "\<not> length t < length p" and "take (length p) t \<noteq> p"
  then have "t \<noteq> []" by auto
  then show "((p, tl t), p, t) \<in> measure (\<lambda>(keyword, text). length text)"
    by simp
qed

declare substring_count.simps [simp del]

definition spec_weight :: "jsstring \<Rightarrow> real" where
  "spec_weight keyword = (if length keyword > 10 then 3 else if length keyword > 6 then 2 else 1)"

definition spec_score :: "AICategory \<Rightarrow> jsstring \<Rightarrow> real" where
  "spec_score c text =
     (\<Sum>keyword \<leftarrow> getKeywordsForCategory c.
        real (substring_count (toLowerCase_ascii keyword) text) * spec_weight keyword)"

definition spec_confidence :: "real \<Rightarrow> nat \<Rightarrow> real" where
  "spec_confidence best_score text_length =
     min (fdiv best_score (max (fdiv (real text_length) 100) 1)) 1"

definition all_categories :: "AICategory list" where
  "all_categories =
     [AI_MODELS, AI_ASSISTANT, AI_AGENT, AI_IDE, AI_CLI, AI_SEARCH, AI_INTEGRATION,
      AI_MULTIMODAL, AI_NOCODE, AI_DATA_ANALYSIS]"

text \<open>A text in which no keyword of any category occurs.\<close>

definition contains_no_keyword :: "jsstring \<Rightarrow> bool" where
  "contains_no_keyword text =
     list_all (\<lambda>entry. list_all (\<lambda>keyword. \<not> js_includes text (toLowerCase_ascii keyword)) (snd entry))
       keywordDictionary"

text \<open>
  Two short items with ASCII text: one whose text holds no keyword, one whose title is
  a keyword of the command-line category. Each carries the default category of its
  source.
\<close>

definition plainNews :: NewsItem where
  "plainNews =
     \<lparr>item_id = ''test-5'', title = ascii ''Hi'', description = [],
      link = ''https://example.com/news/5'', pubDate = 0, source = ''Test Source'',
      category = AI_DATA_ANALYSIS, content = None, createdAt = 0\<rparr>"

definition bashNews :: NewsItem where
  "bashNews =
     \<lparr>item_id = ''test-6'', title = ascii ''Bash'', description = [],
      link = ''https://example.com/news/6'', pubDate = 0, source = ''Test Source'',
      category = AI_MODELS, content = None, createdAt = 0\<rparr>"

section \<open>NewsCollectorService (src/services/NewsCollectorService.ts)\<close>

text \<open>
  A promise that has settled: fulfilled with a value, or rejected with the message of
  the error. The feed of a source is outside the program; \<open>fetch source attempt\<close> is how
  the call of \<open>collectFromSource\<close> made in the given attempt (1, 2, 3) settles. Sources
  are fetched independently of one another.
\<close>

datatype 'a settled = Fulfilled 'a | Rejected string

record RSSSource =
  src_name :: string
  src_url :: string
  src_defaultCategory :: AICategory

type_synonym feeds = "RSSSource \<Rightarrow> nat \<Rightarrow> NewsItem list settled"

definition maxRetries :: nat where
  "maxRetries = 3"

text \<open>
  \<open>collectFromSourceWithRetry\<close>: the loop over the attempts. A fulfilled attempt returns
  at once; after the last failed attempt the function throws an error that carries the
  last message. The delay between attempts is not modelled.
\<close>

function retry_loop :: "feeds \<Rightarrow> RSSSource \<Rightarrow> nat \<Rightarrow> string \<Rightarrow> NewsItem list settled" where
  "retry_loop fetch src attempt lastError =
     (if attempt \<le> maxRetries then
        (case fetch src attempt of
           Fulfilled items \<Rightarrow> Fulfilled items
         | Rejected message \<Rightarrow> retry_loop fetch src (attempt + 1) message)
      else Rejected (''Failed to collect from '' @ src_name src
                      @ '' after 3 attempts. Last error: '' @ lastError))"
  by pat_completeness auto
termination
  by (relation "measure (\<lambda>(fetch, src, attempt, lastError). maxRetries + 1 - attempt)") auto

declare retry_loop.simps [simp del]

definition collectFromSourceWithRetry :: "feeds \<Rightarrow> RSSSource \<Rightarrow> NewsItem list settled" where
  "collectFromSourceWithRetry fetch src = retry_loop fetch src 1 ''undefined''"

text \<open>
  \<open>collectFromAllSources\<close>: \<open>Promise.allSettled\<close> gives one settled result per source, in
  the order of the sources, and never rejects. The \<open>forEach\<close> then visits the results
  with their index, skips an index that has no source, appends the value of a fulfilled
  result and counts the others. The list of sources is the module constant
  \<open>RSS_SOURCES\<close>; it is a parameter here. The function is \<open>async\<close>: what it returns is
  itself a settled promise.
\<close>

fun forEach_results ::
  "RSSSource list \<Rightarrow> (NewsItem list settled \<times> nat) list \<Rightarrow> NewsItem list \<times> nat \<times> nat
     \<Rightarrow> NewsItem list \<times> nat \<times> nat" where
  "forEach_results sources [] acc = acc"
| "forEach_results sources ((result, index) # rest) (allNews, successCount, errorCount) =
     (if \<not> index < length sources then
        forEach_results sources rest (allNews, successCount, errorCount)
      else
        (case result of
           Fulfilled v \<Rightarrow>
             forEach_results sources rest (allNews @ v, successCount + 1, errorCount)
         | Rejected reason \<Rightarrow>
             forEach_results sources rest (allNews, successCount, errorCount + 1)))"

definition join_settled ::
  "RSSSource list \<Rightarrow> NewsItem list settled list \<Rightarrow> NewsItem list settled" where
  "join_settled sources results =
     Fulfilled (fst (forEach_results sources (zip results [0 ..< length results]) ([], 0, 0)))"

definition collectFromAllSources :: "feeds \<Rightarrow> RSSSource list \<Rightarrow> NewsItem list settled" where
  "collectFromAllSources fetch sources =
     join_settled sources (map (collectFromSourceWithRetry fetch) sources)"

text \<open>What a settled result contributes to the merged list.\<close>

definition contribution :: "NewsItem list settled \<Rightarrow> NewsItem list" where
  "contribution result = (case result of Fulfilled v \<Rightarrow> v | Rejected reason \<Rightarrow> [])"

definition is_rejected :: "'a settled \<Rightarrow> bool" where
  "is_rejected result = (case result of Fulfilled v \<Rightarrow> False | Rejected reason \<Rightarrow> True)"

text \<open>
  Three sources and feeds for them: the first answers at once, the second fails in
  every attempt, the third answers in its second attempt.
\<close>

definition testSources :: "RSSSource list" where
  "testSources =
     [\<lparr>src_name = ''A'', src_url = ''https://a.example/feed'', src_defaultCategory = AI_MODELS\<rparr>,
      \<lparr>src_name = ''B'', src_url = ''https://b.example/feed'', src_defaultCategory = AI_IDE\<rparr>,
      \<lparr>src_name = ''C'', src_url = ''https://c.example/feed'', src_defaultCategory = AI_AGENT\<rparr>]"

definition testFeeds :: feeds where
  "testFeeds src attempt =
     (if src_name src = ''A'' then Fulfilled [testItem ''a1'' ''ua1'' 0, testItem ''a2'' ''ua2'' 0]
      else if src_name src = ''C'' \<and> attempt = 2 then Fulfilled [testItem ''c1'' ''uc1'' 0]
      else Rejected ''timeout'')"

definition failingFeeds :: feeds where
  "failingFeeds src attempt = Rejected ''timeout''"

section \<open>SchedulerService (src/services/SchedulerService.ts)\<close>

record CollectionStats =
  lastRun :: "int option"
  totalRuns :: nat
  successfulRuns :: nat
  failedRuns :: nat
  totalItemsCollected :: nat
  lastRunDuration :: int
  averageRunDuration :: real
  stats_isRunning :: bool

record SchedulerService =
  classifier :: ClassificationService
  storage :: StorageService
  isRunning :: bool
  stats :: CollectionStats
  runDurations :: "int list"

record RunResult =
  success :: bool
  itemsCollected :: nat
  duration :: int
  error :: "string option"

text \<open>The clock readings of one run: \<open>Date.now()\<close> at its start and end, the time the
  store sees while saving, and the \<open>new Date()\<close> recorded as last run.\<close>

record run_clock =
  startTime :: int
  endTime :: int
  saveTime :: clock_reading
  lastRunAt :: int

definition maxDurationHistory :: nat where
  "maxDurationHistory = 10"

definition initialStats :: CollectionStats where
  "initialStats =
     \<lparr>lastRun = None, totalRuns = 0, successfulRuns = 0, failedRuns = 0,
      totalItemsCollected = 0, lastRunDuration = 0, averageRunDuration = 0,
      stats_isRunning = False\<rparr>"

definition newSchedulerService :: "ClassificationService \<Rightarrow> StorageService \<Rightarrow> SchedulerService" where
  "newSchedulerService c st =
     \<lparr>classifier = c, storage = st, isRunning = False, stats = initialStats, runDurations = []\<rparr>"

definition conflictResult :: RunResult where
  "conflictResult =
     \<lparr>success = False, itemsCollected = 0, duration = 0,
      error = Some ''Collection already in progress''\<rparr>"

text \<open>
  \<open>executeCollection\<close> is \<open>async\<close>. Its body runs without interruption up to its first
  \<open>await\<close>, the wait for the collector. \<open>executeCollection_enter\<close> is that part: with the
  flag set it returns the conflict result at once; otherwise it sets the flag, counts the
  run and suspends (\<open>None\<close>: no result yet).
\<close>

definition executeCollection_enter :: "SchedulerService \<Rightarrow> RunResult option \<times> SchedulerService" where
  "executeCollection_enter s =
     (if isRunning s then (Some conflictResult, s)
      else (None, s\<lparr>isRunning := True,
                     stats := (stats s)\<lparr>totalRuns := totalRuns (stats s) + 1\<rparr>\<rparr>))"

definition completeCollection ::
  "run_clock \<Rightarrow> bool \<Rightarrow> nat \<Rightarrow> string option \<Rightarrow> SchedulerService \<Rightarrow> RunResult \<times> SchedulerService" where
  "completeCollection clock ok items err s =
     (let d = endTime clock - startTime clock;
          pushed = runDurations s @ [d];
          durations = (if length pushed > maxDurationHistory then tl pushed else pushed);
          st = (stats s)\<lparr>lastRun := Some (lastRunAt clock), lastRunDuration := d,
                          stats_isRunning := False\<rparr>;
          st1 = (if ok then st\<lparr>successfulRuns := successfulRuns st + 1\<rparr>
                 else st\<lparr>failedRuns := failedRuns st + 1\<rparr>);
          st2 = st1\<lparr>averageRunDuration := real_of_int (sum_list durations) / real (length durations)\<rparr>
      in (\<lparr>success = ok, itemsCollected = items, duration = d, error = err\<rparr>,
          s\<lparr>isRunning := False, stats := st2, runDurations := durations\<rparr>))"

text \<open>
  \<open>executeCollection_resume\<close> is the rest of the body, from the moment the collector's
  promise has settled: an empty collection completes at once, a rejection is caught and
  completes as a failure, otherwise the items are classified, saved and counted. The
  later \<open>await\<close>s wait for promises that are already resolved; a trigger that arrives in
  between finds the flag set and (\<open>executeCollection_enter\<close>) changes nothing, so the rest
  is one step here. Logging is not modelled.
\<close>

definition executeCollection_resume ::
  "case_folding \<Rightarrow> run_clock \<Rightarrow> NewsItem list settled \<Rightarrow> SchedulerService
     \<Rightarrow> RunResult \<times> SchedulerService" where
  "executeCollection_resume lower clock collected s =
     (case collected of
        Rejected errorMessage \<Rightarrow> completeCollection clock False 0 (Some errorMessage) s
      | Fulfilled collectedNews \<Rightarrow>
          if length collectedNews = 0 then completeCollection clock True 0 None s
          else
            let (classifiedNews, c1) = classifyNewsBatch lower (classifier s) collectedNews;
                (savedCount, st1) = saveNewsItems (saveTime clock) (storage s) classifiedNews;
                s1 = s\<lparr>classifier := c1, storage := st1,
                        stats := (stats s)\<lparr>totalItemsCollected :=
                                    totalItemsCollected (stats s) + savedCount\<rparr>\<rparr>
            in completeCollection clock True savedCount None s1)"

text \<open>A whole run that nothing interleaves with.\<close>

definition executeCollection ::
  "case_folding \<Rightarrow> feeds \<Rightarrow> RSSSource list \<Rightarrow> run_clock \<Rightarrow> SchedulerService
     \<Rightarrow> RunResult \<times> SchedulerService" where
  "executeCollection lower fetch sources clock s =
     (case executeCollection_enter s of
        (Some result, s1) \<Rightarrow> (result, s1)
      | (None, s1) \<Rightarrow>
          executeCollection_resume lower clock (collectFromAllSources fetch sources) s1)"

text \<open>
  The two ways a run is triggered: \<open>executeCollectionManually\<close> logs and calls
  \<open>executeCollection\<close>; the callback of the cron task calls it and drops the result.
\<close>

definition executeCollectionManually_enter ::
  "SchedulerService \<Rightarrow> RunResult option \<times> SchedulerService" where
  "executeCollectionManually_enter s = executeCollection_enter s"

definition cronCallback_enter :: "SchedulerService \<Rightarrow> RunResult option \<times> SchedulerService" where
  "cronCallback_enter s = executeCollection_enter s"

definition testClock :: run_clock where
  "testClock = \<lparr>startTime = 1000, endTime = 1100, saveTime = utcClock 1100, lastRunAt = 1100\<rparr>"

definition idleScheduler :: SchedulerService where
  "idleScheduler = newSchedulerService newClassificationService (newStorageService 1000 7)"

text \<open>A store that holds no more items than its capacity, which is not negative.\<close>

definition within_capacity :: "StorageService \<Rightarrow> bool" where
  "within_capacity s = (0 \<le> maxItems s \<and> int (length (newsItems s)) \<le> maxItems s)"

section \<open>Facts about the map operations and the capacity loop\<close>

lemma map_has_iff: "map_has k m \<longleftrightarrow> k \<in> fst ` set m"
  by (simp add: map_has_def map_of_eq_None_iff)

lemma isDuplicate_iff:
  "isDuplicate s n \<longleftrightarrow>
     item_id n \<in> fst ` set (newsItems s) \<or>
     (\<exists>e \<in> snd ` set (newsItems s). link e = link n \<and> \<bar>pubDate e - pubDate n\<bar> \<le> 3600000)"
  by (auto simp: isDuplicate_def map_has_iff list_ex_iff map_values_def oneHour_def)

lemma enforceMemoryLimit_within:
  "\<not> int (length (newsItems (s::StorageService))) > maxItems s \<Longrightarrow> enforceMemoryLimit s = s"
  by (simp add: enforceMemoryLimit.simps[of s])

lemma enforceMemoryLimit_empty:
  "newsItems (s::StorageService) = [] \<Longrightarrow> enforceMemoryLimit s = s"
  by (simp add: enforceMemoryLimit.simps[of s])

lemma enforceMemoryLimit_step:
  "int (length (newsItems (s::StorageService))) > maxItems s \<Longrightarrow>
   sort_key (\<lambda>p. pubDate (snd p)) (newsItems s) = a # as \<Longrightarrow>
   enforceMemoryLimit s = enforceMemoryLimit (s\<lparr>newsItems := map_delete (fst a) (newsItems s)\<rparr>)"
  by (simp add: enforceMemoryLimit.simps[of s])

lemma sort_key_Nil_iff: "sort_key f xs = [] \<longleftrightarrow> xs = []"
  by (metis length_sort length_0_conv)

text \<open>An induction rule that follows the loop.\<close>

lemma enforceMemoryLimit_induct [consumes 0, case_names within empty step]:
  assumes within: "\<And>s::StorageService. \<not> int (length (newsItems s)) > maxItems s \<Longrightarrow> P s"
    and empty: "\<And>s. newsItems s = [] \<Longrightarrow> P s"
    and step: "\<And>s a as. int (length (newsItems s)) > maxItems s \<Longrightarrow>
        sort_key (\<lambda>p. pubDate (snd p)) (newsItems s) = a # as \<Longrightarrow>
        P (s\<lparr>newsItems := map_delete (fst a) (newsItems s)\<rparr>) \<Longrightarrow> P s"
  shows "P s"
proof (induction s rule: enforceMemoryLimit.induct)
  case (1 s)
  show ?case
  proof (cases "int (length (newsItems s)) > maxItems s")
    case False
    then show ?thesis by (rule within)
  next
    case True
    show ?thesis
    proof (cases "sort_key (\<lambda>p. pubDate (snd p)) (newsItems s)")
      case Nil
      then have "newsItems s = []" by (simp add: sort_key_Nil_iff)
      then show ?thesis by (rule empty)
    next
      case (Cons a as)
      from True Cons "1.IH"[OF True Cons] show ?thesis by (rule step)
    qed
  qed
qed

lemma enforceMemoryLimit_maxItems: "maxItems (enforceMemoryLimit s) = maxItems s"
proof (induction s rule: enforceMemoryLimit_induct)
  case (within s) then show ?case by (simp add: enforceMemoryLimit_within)
next
  case (empty s) then show ?case by (simp add: enforceMemoryLimit_empty)
next
  case (step s a as)
  then show ?case by (simp add: enforceMemoryLimit_step[OF step(1,2)])
qed

lemma enforceMemoryLimit_maxAgeInDays: "maxAgeInDays (enforceMemoryLimit s) = maxAgeInDays s"
proof (induction s rule: enforceMemoryLimit_induct)
  case (within s) then show ?case by (simp add: enforceMemoryLimit_within)
next
  case (empty s) then show ?case by (simp add: enforceMemoryLimit_empty)
next
  case (step s a as)
  then show ?case by (simp add: enforceMemoryLimit_step[OF step(1,2)])
qed

lemma set_map_delete: "set (map_delete k m) = {p \<in> set m. fst p \<noteq> k}"
  by (simp add: map_delete_def)

lemma enforceMemoryLimit_subset:
  "set (newsItems (enforceMemoryLimit s)) \<subseteq> set (newsItems s)"
proof (induction s rule: enforceMemoryLimit_induct)
  case (within s) then show ?case by (simp add: enforceMemoryLimit_within)
next
  case (empty s) then show ?case by (simp add: enforceMemoryLimit_empty)
next
  case (step s a as)
  have "set (map_delete (fst a) (newsItems s)) \<subseteq> set (newsItems s)"
    by (simp add: set_map_delete)
  with step(3) show ?case
    by (simp add: enforceMemoryLimit_step[OF step(1,2)])
qed

lemma enforceMemoryLimit_length:
  "0 \<le> maxItems s \<Longrightarrow> int (length (newsItems (enforceMemoryLimit s))) \<le> maxItems s"
proof (induction s rule: enforceMemoryLimit_induct)
  case (within s) then show ?case by (simp add: enforceMemoryLimit_within)
next
  case (empty s) then show ?case by (simp add: enforceMemoryLimit_empty)
next
  case (step s a as)
  then show ?case by (simp add: enforceMemoryLimit_step[OF step(1,2)])
qed


lemma map_set_fresh: "k \<notin> fst ` set m \<Longrightarrow> map_set k v m = m @ [(k, v)]"
  by (induction m) auto

lemma map_set_keys: "fst ` set (map_set k v m) = insert k (fst ` set m)"
  by (induction m) auto

lemma map_set_distinct: "distinct (map fst m) \<Longrightarrow> distinct (map fst (map_set k v m))"
proof (induction m)
  case Nil
  then show ?case by simp
next
  case (Cons p ps)
  have "fst ` set (map_set k v ps) = insert k (fst ` set ps)" by (rule map_set_keys)
  with Cons show ?case by auto
qed

lemma map_delete_distinct: "distinct (map fst m) \<Longrightarrow> distinct (map fst (map_delete k m))"
  by (simp add: map_delete_def distinct_map_filter)

lemma map_delete_length:
  "distinct (map fst m) \<Longrightarrow> p \<in> set m \<Longrightarrow> Suc (length (map_delete (fst p) m)) = length m"
proof (induction m)
  case Nil
  then show ?case by simp
next
  case (Cons q qs)
  show ?case
  proof (cases "q = p")
    case True
    have "\<forall>x \<in> set qs. fst x \<noteq> fst p" using Cons.prems True by (force simp: image_iff)
    then have "filter (\<lambda>x. fst x \<noteq> fst p) qs = qs" by (simp add: filter_id_conv)
    with True show ?thesis by (simp add: map_delete_def)
  next
    case False
    then have pin: "p \<in> set qs" using Cons.prems by simp
    have "fst q \<noteq> fst p" using Cons.prems pin by (auto simp: image_iff)
    with Cons.IH Cons.prems pin show ?thesis by (simp add: map_delete_def)
  qed
qed

lemma map_delete_set:
  "distinct (map fst m) \<Longrightarrow> p \<in> set m \<Longrightarrow> set (map_delete (fst p) m) = set m - {p}"
proof -
  assume d: "distinct (map fst m)" and pin: "p \<in> set m"
  have "\<And>q. q \<in> set m \<Longrightarrow> (fst q = fst p) = (q = p)"
    using d pin by (metis eq_key_imp_eq_value prod.collapse)
  then show ?thesis by (auto simp: map_delete_def)
qed

lemma sort_key_head_least:
  assumes "sort_key f xs = a # as" and "x \<in> set xs"
  shows "f a \<le> f x"
proof -
  have "sorted (map f (sort_key f xs))" by (rule sorted_sort_key)
  then have "sorted (f a # map f as)" using assms(1) by simp
  moreover have "x \<in> set (a # as)" using assms by (metis set_sort)
  ultimately show ?thesis by auto
qed

lemma sort_key_head_mem:
  assumes "sort_key f xs = a # as"
  shows "a \<in> set xs"
proof -
  have "a \<in> set (sort_key f xs)" using assms by simp
  then show ?thesis by simp
qed

lemma enforceMemoryLimit_distinct:
  "distinct (map fst (newsItems s)) \<Longrightarrow> distinct (map fst (newsItems (enforceMemoryLimit s)))"
proof (induction s rule: enforceMemoryLimit_induct)
  case (within s) then show ?case by (simp add: enforceMemoryLimit_within)
next
  case (empty s) then show ?case by (simp add: enforceMemoryLimit_empty)
next
  case (step s a as)
  then show ?case by (simp add: enforceMemoryLimit_step[OF step(1,2)] map_delete_distinct)
qed

lemma enforceMemoryLimit_exact:
  "distinct (map fst (newsItems s)) \<Longrightarrow> 0 \<le> maxItems s \<Longrightarrow>
   maxItems s \<le> int (length (newsItems s)) \<Longrightarrow>
   int (length (newsItems (enforceMemoryLimit s))) = maxItems s"
proof (induction s rule: enforceMemoryLimit_induct)
  case (within s) then show ?case by (simp add: enforceMemoryLimit_within)
next
  case (empty s) then show ?case by (simp add: enforceMemoryLimit_empty)
next
  case (step s a as)
  have ain: "a \<in> set (newsItems s)" using step(2) by (rule sort_key_head_mem)
  have len: "Suc (length (map_delete (fst a) (newsItems s))) = length (newsItems s)"
    using step(4) ain by (rule map_delete_length)
  have "int (length (newsItems (enforceMemoryLimit (s\<lparr>newsItems := map_delete (fst a) (newsItems s)\<rparr>))))
          = maxItems (s\<lparr>newsItems := map_delete (fst a) (newsItems s)\<rparr>)"
  proof (rule step(3))
    show "distinct (map fst (newsItems (s\<lparr>newsItems := map_delete (fst a) (newsItems s)\<rparr>)))"
      using step(4) by (simp add: map_delete_distinct)
    show "0 \<le> maxItems (s\<lparr>newsItems := map_delete (fst a) (newsItems s)\<rparr>)"
      using step(5) by simp
    show "maxItems (s\<lparr>newsItems := map_delete (fst a) (newsItems s)\<rparr>)
            \<le> int (length (newsItems (s\<lparr>newsItems := map_delete (fst a) (newsItems s)\<rparr>)))"
      using step(1) len by simp
  qed
  then show ?case by (simp add: enforceMemoryLimit_step[OF step(1,2)])
qed

lemma enforceMemoryLimit_oldest:
  "distinct (map fst (newsItems s)) \<Longrightarrow>
   r \<in> set (newsItems s) \<Longrightarrow> r \<notin> set (newsItems (enforceMemoryLimit s)) \<Longrightarrow>
   k \<in> set (newsItems (enforceMemoryLimit s)) \<Longrightarrow>
   pubDate (snd r) \<le> pubDate (snd k)"
proof (induction s rule: enforceMemoryLimit_induct)
  case (within s) then show ?case by (simp add: enforceMemoryLimit_within)
next
  case (empty s) then show ?case by (simp add: enforceMemoryLimit_empty)
next
  case (step s a as)
  let ?s' = "s\<lparr>newsItems := map_delete (fst a) (newsItems s)\<rparr>"
  have eq: "enforceMemoryLimit s = enforceMemoryLimit ?s'"
    by (rule enforceMemoryLimit_step[OF step(1,2)])
  have ain: "a \<in> set (newsItems s)" using step(2) by (rule sort_key_head_mem)
  have set': "set (newsItems ?s') = set (newsItems s) - {a}"
    using map_delete_set[OF step(4) ain] by simp
  have kin': "k \<in> set (newsItems ?s')"
    using step(7) enforceMemoryLimit_subset[of ?s'] eq by auto
  show ?case
  proof (cases "r = a")
    case True
    have "k \<in> set (newsItems s)" using kin' set' by simp
    with step(2) have "pubDate (snd a) \<le> pubDate (snd k)"
      by (rule sort_key_head_least)
    with True show ?thesis by simp
  next
    case False
    show ?thesis
    proof (rule step(3))
      show "distinct (map fst (newsItems ?s'))" using step(4) by (simp add: map_delete_distinct)
      show "r \<in> set (newsItems ?s')" using False step(5) set' by simp
      show "r \<notin> set (newsItems (enforceMemoryLimit ?s'))" using step(6) eq by simp
      show "k \<in> set (newsItems (enforceMemoryLimit ?s'))" using step(7) eq by simp
    qed
  qed
qed

text \<open>
  Which entry the loop keeps. The entry \<open>p\<close> is the last of the entries with its
  publication time, as an entry that was just inserted is. It is still there after the
  loop exactly if fewer than \<open>maxItems\<close> entries are dated later than it.
\<close>

lemma map_delete_filter:
  assumes d: "distinct (map fst m)" and pin: "p \<in> set m"
  shows "map_delete (fst p) m = filter (\<lambda>q. q \<noteq> p) m"
proof -
  have "\<And>q. q \<in> set m \<Longrightarrow> (fst q \<noteq> fst p) = (q \<noteq> p)"
    using d pin by (metis eq_key_imp_eq_value prod.collapse)
  then show ?thesis unfolding map_delete_def by (rule filter_cong[OF refl])
qed

lemma sort_key_head_first:
  assumes "sort_key f xs = a # as"
  shows "filter (\<lambda>y. f y = f a) xs = a # filter (\<lambda>y. f y = f a) as"
proof -
  have "filter (\<lambda>y. f y = f a) (sort_key f xs) = filter (\<lambda>y. f y = f a) xs"
    by (rule sort_key_stable)
  then show ?thesis using assms by simp
qed

lemma distinct_hd_last_single:
  assumes "distinct (a # as)" and "last (a # as) = a"
  shows "as = []"
proof (rule ccontr)
  assume "as \<noteq> []"
  then have "last (a # as) \<in> set as" by simp
  with assms show False by simp
qed

lemma last_filter_keep:
  assumes "xs \<noteq> []" and "P (last xs)"
  shows "last (filter P xs) = last xs"
  using assms by (cases xs rule: rev_cases) simp_all

lemma enforceMemoryLimit_keeps_iff:
  fixes s :: StorageService
  shows "distinct (map fst (newsItems s)) \<Longrightarrow> p \<in> set (newsItems s) \<Longrightarrow>
     last (filter (\<lambda>q. pubDate (snd q) = pubDate (snd p)) (newsItems s)) = p \<Longrightarrow>
     (p \<in> set (newsItems (enforceMemoryLimit s))
        \<longleftrightarrow> int (length (filter (\<lambda>q. pubDate (snd p) < pubDate (snd q)) (newsItems s))) < maxItems s)"
proof (induction s rule: enforceMemoryLimit_induct)
  case (within s)
  have "length (filter (\<lambda>q. pubDate (snd p) < pubDate (snd q)) (newsItems s)) < length (newsItems s)"
    by (rule length_filter_less[OF within(3)]) simp
  with within show ?case by (simp add: enforceMemoryLimit_within)
next
  case (empty s)
  then show ?case by simp
next
  case (step s a as)
  let ?f = "\<lambda>q. pubDate (snd q)"
  let ?s' = "s\<lparr>newsItems := map_delete (fst a) (newsItems s)\<rparr>"
  have eq: "enforceMemoryLimit s = enforceMemoryLimit ?s'"
    by (rule enforceMemoryLimit_step[OF step(1,2)])
  have ain: "a \<in> set (newsItems s)" using step(2) by (rule sort_key_head_mem)
  have del: "map_delete (fst a) (newsItems s) = filter (\<lambda>q. q \<noteq> a) (newsItems s)"
    using step(4) ain by (rule map_delete_filter)
  have dl: "distinct (newsItems s)" using step(4) by (simp add: distinct_map)
  show ?case
  proof (cases "a = p")
    case True
    let ?R = "filter (\<lambda>y. ?f y = ?f p) as"
    have e1: "filter (\<lambda>y. ?f y = ?f p) (newsItems s) = p # ?R"
      using sort_key_head_first[OF step(2)] unfolding True .
    have "distinct (filter (\<lambda>y. ?f y = ?f p) (newsItems s))"
      using dl by (rule distinct_filter)
    then have d1: "distinct (p # ?R)" unfolding e1 .
    have l1: "last (p # ?R) = p" using step(6) unfolding e1 .
    have "?R = []" using d1 l1 by (rule distinct_hd_last_single)
    then have single: "filter (\<lambda>y. ?f y = ?f p) (newsItems s) = [p]"
      unfolding e1 by (rule arg_cong)
    have gt: "?f p < ?f q" if qin: "q \<in> set (newsItems s)" and ne: "q \<noteq> p" for q
    proof -
      have "?f a \<le> ?f q" using step(2) qin by (rule sort_key_head_least)
      then have le: "?f p \<le> ?f q" unfolding True .
      have "?f q \<noteq> ?f p"
      proof
        assume "?f q = ?f p"
        then have "q \<in> set (filter (\<lambda>y. ?f y = ?f p) (newsItems s))" using qin by simp
        then have "q \<in> set [p]" unfolding single .
        with ne show False by simp
      qed
      with le show ?thesis by linarith
    qed
    have "filter (\<lambda>q. ?f p < ?f q) (newsItems s) = filter (\<lambda>q. q \<noteq> p) (newsItems s)"
    proof (rule filter_cong[OF refl])
      fix x assume "x \<in> set (newsItems s)"
      then show "(?f p < ?f x) = (x \<noteq> p)" using gt[of x] by (cases "x = p") simp_all
    qed
    also have "\<dots> = map_delete (fst p) (newsItems s)"
      using del unfolding True by (rule sym)
    finally have "length (filter (\<lambda>q. ?f p < ?f q) (newsItems s))
                    = length (map_delete (fst p) (newsItems s))"
      by (rule arg_cong)
    moreover have "Suc (length (map_delete (fst p) (newsItems s))) = length (newsItems s)"
      using step(4,5) by (rule map_delete_length)
    ultimately have many: "\<not> int (length (filter (\<lambda>q. ?f p < ?f q) (newsItems s))) < maxItems s"
      using step(1) by linarith
    have "set (newsItems ?s') = set (newsItems s) - {a}"
      using map_delete_set[OF step(4) ain] by simp
    then have "p \<notin> set (newsItems ?s')" unfolding True by simp
    then have "p \<notin> set (newsItems (enforceMemoryLimit s))"
      using enforceMemoryLimit_subset[of ?s'] unfolding eq by blast
    with many show ?thesis by simp
  next
    case False
    have le: "?f a \<le> ?f p" using step(2,5) by (rule sort_key_head_least)
    have cnt: "filter (\<lambda>q. ?f p < ?f q) (newsItems ?s') = filter (\<lambda>q. ?f p < ?f q) (newsItems s)"
      unfolding del by (simp, rule filter_cong[OF refl]) (use le in auto)
    have "(p \<in> set (newsItems (enforceMemoryLimit ?s'))
        \<longleftrightarrow> int (length (filter (\<lambda>q. ?f p < ?f q) (newsItems ?s'))) < maxItems ?s')"
    proof (rule step(3))
      show "distinct (map fst (newsItems ?s'))" using step(4) by (simp add: map_delete_distinct)
      show "p \<in> set (newsItems ?s')" using step(5) False del by simp
      have "filter (\<lambda>q. ?f q = ?f p) (newsItems ?s')
              = filter (\<lambda>q. q \<noteq> a) (filter (\<lambda>q. ?f q = ?f p) (newsItems s))"
        unfolding del by (simp, rule filter_cong[OF refl]) auto
      moreover have "last (filter (\<lambda>q. q \<noteq> a) (filter (\<lambda>q. ?f q = ?f p) (newsItems s)))
              = last (filter (\<lambda>q. ?f q = ?f p) (newsItems s))"
      proof (rule last_filter_keep)
        have "p \<in> set (filter (\<lambda>q. ?f q = ?f p) (newsItems s))" using step(5) by simp
        then show "filter (\<lambda>q. ?f q = ?f p) (newsItems s) \<noteq> []" by (metis empty_iff empty_set)
        show "last (filter (\<lambda>q. ?f q = ?f p) (newsItems s)) \<noteq> a"
          using step(6) False by simp
      qed
      ultimately show "last (filter (\<lambda>q. ?f q = ?f p) (newsItems ?s')) = p"
        using step(6) by simp
    qed
    then show ?thesis unfolding cnt eq by simp
  qed
qed

section \<open>Facts about saving\<close>

lemma saveNewsItem_duplicate: "isDuplicate s n \<Longrightarrow> saveNewsItem now s n = (False, s)"
  by (simp add: saveNewsItem_def)

lemma saveNewsItem_fresh:
  "\<not> isDuplicate s n \<Longrightarrow>
   saveNewsItem now s n =
     (True, enforceMemoryLimit (cleanupOldItems now (s\<lparr>newsItems := newsItems s @ [(item_id n, n)]\<rparr>)))"
  by (simp add: saveNewsItem_def isDuplicate_iff map_set_fresh Let_def)

lemma saveNewsItem_maxItems: "maxItems (snd (saveNewsItem now s n)) = maxItems s"
  by (simp add: saveNewsItem_def Let_def enforceMemoryLimit_maxItems cleanupOldItems_def)

lemma saveNewsItem_maxAgeInDays: "maxAgeInDays (snd (saveNewsItem now s n)) = maxAgeInDays s"
  by (simp add: saveNewsItem_def Let_def enforceMemoryLimit_maxAgeInDays cleanupOldItems_def)

lemma cutoffDate_newsItems [simp]: "cutoffDate now (s\<lparr>newsItems := m\<rparr>) = cutoffDate now s"
  by (simp add: cutoffDate_def)

text \<open>
  The cut-off is the local time of the reading, moved back by \<open>maxAgeInDays\<close> days of
  86400000 ms on the local calendar, and read with the offset in force then.
\<close>

lemma MakeDate_Day: "MakeDate (Day t - d) (TimeWithinDay t) = t - d * msPerDay"
proof -
  have "t div msPerDay * msPerDay + t mod msPerDay = t" by simp
  then show ?thesis
    by (simp add: MakeDate_def Day_def TimeWithinDay_def algebra_simps)
qed

lemma cutoffDate_local:
  "cutoffDate now s =
     getTime now + localTZA_utc now (getTime now) - maxAgeInDays s * msPerDay
       - localTZA_local now (getTime now + localTZA_utc now (getTime now) - maxAgeInDays s * msPerDay)"
  by (simp add: cutoffDate_def Let_def MakeDate_Day LocalTime_def UTC_of_local_def)

lemma cutoffDate_same_offset:
  assumes "localTZA_local now (getTime now + localTZA_utc now (getTime now) - maxAgeInDays s * msPerDay)
             = localTZA_utc now (getTime now)"
  shows "cutoffDate now s = getTime now - maxAgeInDays s * msPerDay"
  using assms by (simp add: cutoffDate_local)

lemma cutoffDate_utc: "cutoffDate (utcClock t) s = t - maxAgeInDays s * msPerDay"
  by (simp add: cutoffDate_local utcClock_def)

lemma cutoffDate_zone:
  "cutoffDate (zoneClock change before after t) s =
     (let l = t + (if t < change then before else after) - maxAgeInDays s * msPerDay
      in l - (if l < change + max before after then before else after))"
  by (simp add: cutoffDate_local zoneClock_def Let_def)

lemma getTime_utcClock: "getTime (utcClock t) = t"
  by (simp add: utcClock_def)

lemma getTime_zoneClock: "getTime (zoneClock change before after t) = t"
  by (simp add: zoneClock_def)

lemma localTZA_utcClock: "localTZA_utc (utcClock t) u = 0" "localTZA_local (utcClock t) l = 0"
  by (simp_all add: utcClock_def)

lemma set_cleanupOldItems:
  "set (newsItems (cleanupOldItems now s)) = {p \<in> set (newsItems s). \<not> pubDate (snd p) < cutoffDate now s}"
  by (simp add: cleanupOldItems_def)

lemma saveNewsItem_retention:
  assumes "fst (saveNewsItem now s n)" 
    and "p \<in> set (newsItems (snd (saveNewsItem now s n)))"
  shows "\<not> pubDate (snd p) < cutoffDate now s"
proof -
  from assms(1) have nd: "\<not> isDuplicate s n" by (auto simp: saveNewsItem_def split: if_splits)
  let ?s1 = "s\<lparr>newsItems := newsItems s @ [(item_id n, n)]\<rparr>"
  have "p \<in> set (newsItems (enforceMemoryLimit (cleanupOldItems now ?s1)))"
    using assms(2) by (simp add: saveNewsItem_fresh[OF nd])
  then have "p \<in> set (newsItems (cleanupOldItems now ?s1))"
    using enforceMemoryLimit_subset by blast
  then show ?thesis by (simp add: set_cleanupOldItems)
qed

lemma saveNewsItem_stale:
  assumes nd: "\<not> isDuplicate s n" and old: "pubDate n < cutoffDate now s"
  shows "fst (saveNewsItem now s n) \<and> getNewsItem (snd (saveNewsItem now s n)) (item_id n) = None"
proof -
  let ?s1 = "s\<lparr>newsItems := newsItems s @ [(item_id n, n)]\<rparr>"
  have nk: "item_id n \<notin> fst ` set (newsItems s)" using nd by (simp add: isDuplicate_iff)
  have "item_id n \<notin> fst ` set (newsItems (cleanupOldItems now ?s1))"
    using nk old by (auto simp: set_cleanupOldItems)
  then have "item_id n \<notin> fst ` set (newsItems (enforceMemoryLimit (cleanupOldItems now ?s1)))"
    using enforceMemoryLimit_subset by blast
  then show ?thesis
    by (simp add: saveNewsItem_fresh[OF nd] getNewsItem_def map_of_eq_None_iff)
qed

lemma sort_key_unique_min_head:
  assumes xin: "x \<in> set xs" and least: "\<forall>y \<in> set xs. y \<noteq> x \<longrightarrow> f x < f y"
  shows "\<exists>as. sort_key f xs = x # as"
proof (cases "sort_key f xs")
  case Nil
  then have "xs = []" by (simp add: sort_key_Nil_iff)
  with xin show ?thesis by simp
next
  case (Cons a as)
  have "a \<in> set xs" using Cons by (rule sort_key_head_mem)
  moreover have "f a \<le> f x" using Cons xin by (rule sort_key_head_least)
  ultimately have "a = x" using least by fastforce
  with Cons show ?thesis by simp
qed

lemma saveNewsItem_below_capacity:
  assumes nd: "\<not> isDuplicate s n" and cap: "int (length (newsItems s)) < maxItems s"
  shows "saveNewsItem now s n =
     (True, cleanupOldItems now (s\<lparr>newsItems := newsItems s @ [(item_id n, n)]\<rparr>))"
proof -
  let ?s1 = "s\<lparr>newsItems := newsItems s @ [(item_id n, n)]\<rparr>"
  have "length (newsItems (cleanupOldItems now ?s1)) \<le> length (newsItems s) + 1"
    unfolding cleanupOldItems_def by (simp add: le_SucI)
  then have "\<not> int (length (newsItems (cleanupOldItems now ?s1))) > maxItems (cleanupOldItems now ?s1)"
    using cap by (simp add: cleanupOldItems_def)
  then have "enforceMemoryLimit (cleanupOldItems now ?s1) = cleanupOldItems now ?s1"
    by (rule enforceMemoryLimit_within)
  then show ?thesis by (simp add: saveNewsItem_fresh[OF nd])
qed

lemma saveNewsItem_kept_iff:
  assumes nd: "\<not> isDuplicate s n" and d: "distinct (map fst (newsItems s))"
    and fresh: "\<not> pubDate n < cutoffDate now s"
  shows "getNewsItem (snd (saveNewsItem now s n)) (item_id n) = Some n
         \<longleftrightarrow> int (length (filter (\<lambda>q. pubDate n < pubDate (snd q)) (newsItems s))) < maxItems s"
proof -
  let ?p = "(item_id n, n)"
  let ?keep = "\<lambda>q. \<not> pubDate (snd q) < cutoffDate now s"
  let ?s2 = "cleanupOldItems now (s\<lparr>newsItems := newsItems s @ [?p]\<rparr>)"
  have nk: "item_id n \<notin> fst ` set (newsItems s)" using nd by (simp add: isDuplicate_iff)
  have items: "newsItems ?s2 = filter ?keep (newsItems s) @ [?p]"
    using fresh by (simp add: cleanupOldItems_def)
  have d2: "distinct (map fst (newsItems ?s2))"
    unfolding items using d nk by (auto simp: distinct_map_filter)
  have pin: "?p \<in> set (newsItems ?s2)" unfolding items by simp
  have lst: "last (filter (\<lambda>q. pubDate (snd q) = pubDate (snd ?p)) (newsItems ?s2)) = ?p"
    unfolding items by simp
  have cnt: "filter (\<lambda>q. pubDate (snd ?p) < pubDate (snd q)) (newsItems ?s2)
               = filter (\<lambda>q. pubDate n < pubDate (snd q)) (newsItems s)"
  proof -
    have "filter (\<lambda>q. pubDate n < pubDate (snd q)) (filter ?keep (newsItems s))
            = filter (\<lambda>q. pubDate n < pubDate (snd q)) (newsItems s)"
      unfolding filter_filter by (rule filter_cong[OF refl]) (use fresh in auto)
    then show ?thesis unfolding items by simp
  qed
  have mi: "maxItems ?s2 = maxItems s" by (simp add: cleanupOldItems_def)
  have iff: "?p \<in> set (newsItems (enforceMemoryLimit ?s2))
        \<longleftrightarrow> int (length (filter (\<lambda>q. pubDate n < pubDate (snd q)) (newsItems s))) < maxItems s"
    using enforceMemoryLimit_keeps_iff[OF d2 pin lst] unfolding cnt mi .
  have d3: "distinct (map fst (newsItems (enforceMemoryLimit ?s2)))"
    using d2 by (rule enforceMemoryLimit_distinct)
  have "getNewsItem (snd (saveNewsItem now s n)) (item_id n) = Some n
          \<longleftrightarrow> ?p \<in> set (newsItems (enforceMemoryLimit ?s2))"
    by (simp add: saveNewsItem_fresh[OF nd] getNewsItem_def map_of_eq_Some_iff[OF d3])
  with iff show ?thesis by simp
qed

lemma three_items_store:
  assumes empty: "newsItems s = []" and cap: "maxItems s = 2"
    and ids: "item_id a \<noteq> item_id b" "item_id a \<noteq> item_id c" "item_id b \<noteq> item_id c"
    and links: "\<not> (link a = link b \<and> \<bar>pubDate a - pubDate b\<bar> \<le> 3600000)"
               "\<not> (link a = link c \<and> \<bar>pubDate a - pubDate c\<bar> \<le> 3600000)"
               "\<not> (link b = link c \<and> \<bar>pubDate b - pubDate c\<bar> \<le> 3600000)"
    and fresh: "\<not> pubDate a < cutoffDate now s" "\<not> pubDate b < cutoffDate now s"
               "\<not> pubDate c < cutoffDate now s"
  shows "saveNewsItems now s [a, b, c] =
           (3, enforceMemoryLimit (s\<lparr>newsItems := [(item_id a, a), (item_id b, b), (item_id c, c)]\<rparr>))"
proof -
  let ?s1 = "s\<lparr>newsItems := [(item_id a, a)]\<rparr>"
  let ?s2 = "s\<lparr>newsItems := [(item_id a, a), (item_id b, b)]\<rparr>"
  let ?s3 = "s\<lparr>newsItems := [(item_id a, a), (item_id b, b), (item_id c, c)]\<rparr>"
  have nd1: "\<not> isDuplicate s a" using empty by (simp add: isDuplicate_iff)
  have r1: "saveNewsItem now s a = (True, ?s1)"
    using saveNewsItem_below_capacity[OF nd1, of now] empty cap fresh
    by (simp add: cleanupOldItems_def)
  have nd2: "\<not> isDuplicate ?s1 b" using ids links by (simp add: isDuplicate_iff)
  have r2: "saveNewsItem now ?s1 b = (True, ?s2)"
    using saveNewsItem_below_capacity[OF nd2, of now] cap fresh
    by (simp add: cleanupOldItems_def)
  have nd3: "\<not> isDuplicate ?s2 c" using ids links by (auto simp add: isDuplicate_iff)
  have r3: "saveNewsItem now ?s2 c = (True, enforceMemoryLimit ?s3)"
    using saveNewsItem_fresh[OF nd3, of now] fresh
    by (simp add: cleanupOldItems_def)
  show ?thesis by (simp add: r1 r2 r3)
qed

lemma three_items_evict:
  fixes s :: StorageService
  assumes cap: "maxItems s = 2"
    and m: "newsItems s = [x, y, z]"
    and w: "w \<in> {x, y, z}"
    and least: "\<forall>q \<in> {x, y, z}. q \<noteq> w \<longrightarrow> pubDate (snd w) < pubDate (snd q)"
    and keys: "distinct (map fst [x, y, z])"
  shows "enforceMemoryLimit s = s\<lparr>newsItems := filter (\<lambda>q. q \<noteq> w) [x, y, z]\<rparr>"
proof -
  have "\<exists>as. sort_key (\<lambda>p. pubDate (snd p)) (newsItems s) = w # as"
    using w least by (intro sort_key_unique_min_head) (simp_all add: m)
  then obtain as where srt: "sort_key (\<lambda>p. pubDate (snd p)) (newsItems s) = w # as" ..
  have over: "int (length (newsItems s)) > maxItems s" by (simp add: m cap)
  have del: "map_delete (fst w) (newsItems s) = filter (\<lambda>q. q \<noteq> w) [x, y, z]"
    using w keys by (auto simp: map_delete_def m)
  have "length (filter (\<lambda>q. q \<noteq> w) [x, y, z]) \<le> 2"
    using w by auto
  then have "\<not> int (length (newsItems (s\<lparr>newsItems := filter (\<lambda>q. q \<noteq> w) [x, y, z]\<rparr>)))
                > maxItems (s\<lparr>newsItems := filter (\<lambda>q. q \<noteq> w) [x, y, z]\<rparr>)"
    by (simp add: cap)
  then have "enforceMemoryLimit (s\<lparr>newsItems := filter (\<lambda>q. q \<noteq> w) [x, y, z]\<rparr>)
               = s\<lparr>newsItems := filter (\<lambda>q. q \<noteq> w) [x, y, z]\<rparr>"
    by (rule enforceMemoryLimit_within)
  then show ?thesis using enforceMemoryLimit_step[OF over srt] del by simp
qed

lemma Min3: "Min {x, y, z} = min x (min y (z::int))"
  by simp

lemma three_items_keep_newest:
  assumes h: "newsItems s = [] \<and> maxItems s = 2
        \<and> distinct [item_id a, item_id b, item_id c]
        \<and> \<not> (link a = link b \<and> \<bar>pubDate a - pubDate b\<bar> \<le> 3600000)
        \<and> \<not> (link a = link c \<and> \<bar>pubDate a - pubDate c\<bar> \<le> 3600000)
        \<and> \<not> (link b = link c \<and> \<bar>pubDate b - pubDate c\<bar> \<le> 3600000)
        \<and> distinct [pubDate a, pubDate b, pubDate c]
        \<and> (\<forall>x \<in> {a, b, c}. \<not> pubDate x < cutoffDate now s)"
  shows "fst (saveNewsItems now s [a, b, c]) = 3
          \<and> getItemCount (snd (saveNewsItems now s [a, b, c])) = 2
          \<and> (\<forall>x \<in> {a, b, c}.
                getNewsItem (snd (saveNewsItems now s [a, b, c])) (item_id x)
                  = (if pubDate x = Min {pubDate a, pubDate b, pubDate c} then None else Some x))"
proof -
  let ?m = "[(item_id a, a), (item_id b, b), (item_id c, c)]"
  have r: "saveNewsItems now s [a, b, c] = (3, enforceMemoryLimit (s\<lparr>newsItems := ?m\<rparr>))"
    using h by (intro three_items_store) simp_all
  have ids: "item_id a \<noteq> item_id b" "item_id a \<noteq> item_id c" "item_id b \<noteq> item_id c"
    and dates: "pubDate a \<noteq> pubDate b" "pubDate a \<noteq> pubDate c" "pubDate b \<noteq> pubDate c"
    and cap: "maxItems s = 2"
    using h by simp_all
  consider (A) "pubDate a < pubDate b" "pubDate a < pubDate c"
    | (B) "pubDate b < pubDate a" "pubDate b < pubDate c"
    | (C) "pubDate c < pubDate a" "pubDate c < pubDate b"
    using dates by linarith
  then have "\<exists>w. w \<in> set ?m \<and> pubDate (snd w) = Min {pubDate a, pubDate b, pubDate c}
      \<and> enforceMemoryLimit (s\<lparr>newsItems := ?m\<rparr>) = s\<lparr>newsItems := filter (\<lambda>q. q \<noteq> w) ?m\<rparr>"
  proof cases
    case A
    have "enforceMemoryLimit (s\<lparr>newsItems := ?m\<rparr>)
            = (s\<lparr>newsItems := ?m\<rparr>)\<lparr>newsItems := filter (\<lambda>q. q \<noteq> (item_id a, a)) ?m\<rparr>"
      using A ids cap by (intro three_items_evict) simp_all
    moreover have "pubDate a = Min {pubDate a, pubDate b, pubDate c}"
      unfolding Min3 using A by simp
    ultimately show ?thesis by (intro exI[of _ "(item_id a, a)"]) simp
  next
    case B
    have "enforceMemoryLimit (s\<lparr>newsItems := ?m\<rparr>)
            = (s\<lparr>newsItems := ?m\<rparr>)\<lparr>newsItems := filter (\<lambda>q. q \<noteq> (item_id b, b)) ?m\<rparr>"
      using B ids cap by (intro three_items_evict) simp_all
    moreover have "pubDate b = Min {pubDate a, pubDate b, pubDate c}"
      unfolding Min3 using B by simp
    ultimately show ?thesis by (intro exI[of _ "(item_id b, b)"]) simp
  next
    case C
    have "enforceMemoryLimit (s\<lparr>newsItems := ?m\<rparr>)
            = (s\<lparr>newsItems := ?m\<rparr>)\<lparr>newsItems := filter (\<lambda>q. q \<noteq> (item_id c, c)) ?m\<rparr>"
      using C ids cap by (intro three_items_evict) simp_all
    moreover have "pubDate c = Min {pubDate a, pubDate b, pubDate c}"
      unfolding Min3 using C by simp
    ultimately show ?thesis by (intro exI[of _ "(item_id c, c)"]) simp
  qed
  then obtain w where win: "w \<in> set ?m"
    and wmin: "pubDate (snd w) = Min {pubDate a, pubDate b, pubDate c}"
    and ev: "enforceMemoryLimit (s\<lparr>newsItems := ?m\<rparr>) = s\<lparr>newsItems := filter (\<lambda>q. q \<noteq> w) ?m\<rparr>"
    by blast
  have c1: "fst (saveNewsItems now s [a, b, c]) = 3" unfolding r by simp
  have c2: "getItemCount (snd (saveNewsItems now s [a, b, c])) = 2"
    unfolding r ev getItemCount_def using win ids by auto
  have c3: "getNewsItem (snd (saveNewsItems now s [a, b, c])) (item_id x)
            = (if pubDate x = Min {pubDate a, pubDate b, pubDate c} then None else Some x)"
    if "x \<in> {a, b, c}" for x
    unfolding r ev getNewsItem_def wmin[symmetric] using win ids dates that by auto
  from c1 c2 c3 show ?thesis by blast
qed

section \<open>Facts about update, delete and the id invariant\<close>

lemma store_invariant_ids:
  "store_invariant s \<Longrightarrow> stored_ids s = map fst (newsItems s) \<and> distinct (stored_ids s)"
proof -
  assume inv: "store_invariant s"
  then have "\<forall>entry \<in> set (newsItems s). item_id (snd entry) = fst entry"
    by (simp add: store_invariant_def list_all_iff)
  then have "stored_ids s = map fst (newsItems s)"
    by (simp add: stored_ids_def)
  with inv show ?thesis by (simp add: store_invariant_def)
qed

lemma store_invariant_subset:
  assumes "store_invariant s" and "set (newsItems s') \<subseteq> set (newsItems s)"
    and "distinct (map fst (newsItems s'))"
  shows "store_invariant s'"
  using assms by (auto simp: store_invariant_def list_all_iff)

lemma store_invariant_save: "store_invariant s \<Longrightarrow> store_invariant (snd (saveNewsItem now s n))"
proof (cases "isDuplicate s n")
  case True
  assume "store_invariant s"
  with True show ?thesis by (simp add: saveNewsItem_duplicate)
next
  case False
  assume inv: "store_invariant s"
  let ?s1 = "s\<lparr>newsItems := newsItems s @ [(item_id n, n)]\<rparr>"
  have nk: "item_id n \<notin> fst ` set (newsItems s)" using False by (simp add: isDuplicate_iff)
  have inv1: "store_invariant ?s1"
    using inv nk by (simp add: store_invariant_def)
  have inv2: "store_invariant (cleanupOldItems now ?s1)"
    using inv1 by (auto simp: store_invariant_def cleanupOldItems_def list_all_iff distinct_map_filter
        simp del: cutoffDate_newsItems)
  have "store_invariant (enforceMemoryLimit (cleanupOldItems now ?s1))"
  proof (rule store_invariant_subset[OF inv2])
    show "set (newsItems (enforceMemoryLimit (cleanupOldItems now ?s1)))
            \<subseteq> set (newsItems (cleanupOldItems now ?s1))"
      by (rule enforceMemoryLimit_subset)
    show "distinct (map fst (newsItems (enforceMemoryLimit (cleanupOldItems now ?s1))))"
      using inv2 by (intro enforceMemoryLimit_distinct) (simp add: store_invariant_def)
  qed
  then show ?thesis by (simp add: saveNewsItem_fresh[OF False])
qed

lemma store_invariant_saveAll:
  "store_invariant s \<Longrightarrow> store_invariant (snd (saveNewsItems now s items))"
proof (induction items arbitrary: s)
  case Nil
  then show ?case by simp
next
  case (Cons item items)
  have "store_invariant (snd (saveNewsItem now s item))"
    using Cons.prems by (rule store_invariant_save)
  then have "store_invariant (snd (saveNewsItems now (snd (saveNewsItem now s item)) items))"
    by (rule Cons.IH)
  then show ?case by (simp add: split_beta Let_def)
qed

lemma store_invariant_delete:
  "store_invariant s \<Longrightarrow> store_invariant (snd (deleteNewsItem s k))"
  by (auto simp: store_invariant_def deleteNewsItem_def map_delete_def list_all_iff distinct_map_filter)

lemma set_map_set_subset: "set (map_set k v m) \<subseteq> insert (k, v) (set m)"
  by (induction m) auto

lemma store_invariant_update:
  assumes inv: "store_invariant s" and keep: "upd_id updates = None \<or> upd_id updates = Some k"
  shows "store_invariant (snd (updateNewsItem s k updates))"
proof (cases "map_of (newsItems s) k")
  case None
  with inv show ?thesis by (simp add: updateNewsItem_def)
next
  case (Some existingItem)
  then have "(k, existingItem) \<in> set (newsItems s)" by (rule map_of_SomeD)
  then have "item_id existingItem = k"
    using inv by (auto simp: store_invariant_def list_all_iff)
  then have idk: "item_id (spread existingItem updates) = k"
    using keep by (auto simp: spread_def override_def)
  have "\<forall>entry \<in> set (map_set k (spread existingItem updates) (newsItems s)).
          item_id (snd entry) = fst entry"
    using set_map_set_subset[of k "spread existingItem updates" "newsItems s"] inv idk
    by (auto simp: store_invariant_def list_all_iff)
  moreover have "distinct (map fst (map_set k (spread existingItem updates) (newsItems s)))"
    using inv by (simp add: store_invariant_def map_set_distinct)
  ultimately show ?thesis
    by (simp add: updateNewsItem_def Some store_invariant_def list_all_iff)
qed

text \<open>Every run of operations whose updates leave the id alone keeps the invariant.\<close>

lemma store_invariant_apply_op:
  "store_invariant s \<Longrightarrow> keeps_id op \<Longrightarrow> store_invariant (apply_op s op)"
  by (cases op)
     (simp_all add: store_invariant_save store_invariant_saveAll store_invariant_update
        store_invariant_delete)

lemma store_invariant_run_ops:
  "store_invariant s \<Longrightarrow> list_all keeps_id ops \<Longrightarrow> store_invariant (run_ops s ops)"
  unfolding run_ops_def
  by (induction ops arbitrary: s) (simp_all add: store_invariant_apply_op)

text \<open>Every run of operations from a fresh store stays within the capacity.\<close>

lemma length_map_set_present: "k \<in> fst ` set m \<Longrightarrow> length (map_set k v m) = length m"
  by (induction m) auto

lemma within_capacity_save:
  assumes "within_capacity s"
  shows "within_capacity (snd (saveNewsItem now s n))"
proof (cases "isDuplicate s n")
  case True
  with assms show ?thesis by (simp add: saveNewsItem_duplicate)
next
  case False
  let ?s2 = "cleanupOldItems now (s\<lparr>newsItems := newsItems s @ [(item_id n, n)]\<rparr>)"
  have mi: "maxItems ?s2 = maxItems s" by (simp add: cleanupOldItems_def)
  have "0 \<le> maxItems ?s2" using assms mi by (simp add: within_capacity_def)
  then have "int (length (newsItems (enforceMemoryLimit ?s2))) \<le> maxItems ?s2"
    by (rule enforceMemoryLimit_length)
  then show ?thesis
    using assms mi
    by (simp add: saveNewsItem_fresh[OF False] within_capacity_def enforceMemoryLimit_maxItems)
qed

lemma within_capacity_saveAll:
  "within_capacity s \<Longrightarrow> within_capacity (snd (saveNewsItems now s items))"
proof (induction items arbitrary: s)
  case Nil
  then show ?case by simp
next
  case (Cons item items)
  have "within_capacity (snd (saveNewsItem now s item))"
    using Cons.prems by (rule within_capacity_save)
  then have "within_capacity (snd (saveNewsItems now (snd (saveNewsItem now s item)) items))"
    by (rule Cons.IH)
  then show ?case by (simp add: split_beta Let_def)
qed

lemma within_capacity_update:
  assumes "within_capacity s"
  shows "within_capacity (snd (updateNewsItem s k updates))"
proof (cases "map_of (newsItems s) k")
  case None
  with assms show ?thesis by (simp add: updateNewsItem_def)
next
  case (Some existingItem)
  then have "k \<in> fst ` set (newsItems s)" by (metis map_of_eq_None_iff option.distinct(1))
  then have "length (map_set k (spread existingItem updates) (newsItems s)) = length (newsItems s)"
    by (rule length_map_set_present)
  with assms Some show ?thesis by (simp add: updateNewsItem_def within_capacity_def)
qed

lemma within_capacity_delete:
  assumes "within_capacity s"
  shows "within_capacity (snd (deleteNewsItem s k))"
proof -
  have "length (map_delete k (newsItems s)) \<le> length (newsItems s)"
    by (simp add: map_delete_def)
  with assms show ?thesis by (simp add: deleteNewsItem_def within_capacity_def)
qed

lemma within_capacity_apply_op: "within_capacity s \<Longrightarrow> within_capacity (apply_op s op)"
  by (cases op)
     (simp_all add: within_capacity_save within_capacity_saveAll within_capacity_update
        within_capacity_delete)

lemma within_capacity_run_ops: "within_capacity s \<Longrightarrow> within_capacity (run_ops s ops)"
  unfolding run_ops_def
  by (induction ops arbitrary: s) (simp_all add: within_capacity_apply_op)

lemma maxItems_apply_op: "maxItems (apply_op s op) = maxItems s"
proof (cases op)
  case (Save now item)
  then show ?thesis by (simp add: saveNewsItem_maxItems)
next
  case (SaveAll now items)
  have "maxItems (snd (saveNewsItems now s items)) = maxItems s"
    by (induction items arbitrary: s) (simp_all add: split_beta Let_def saveNewsItem_maxItems)
  with SaveAll show ?thesis by simp
next
  case (Update k updates)
  then show ?thesis by (simp add: updateNewsItem_def split: option.splits)
next
  case (Delete k)
  then show ?thesis by (simp add: deleteNewsItem_def)
qed

lemma maxItems_run_ops: "maxItems (run_ops s ops) = maxItems s"
  unfolding run_ops_def
  by (induction ops arbitrary: s) (simp_all add: maxItems_apply_op)

lemma capacity_reachable:
  "0 \<le> mi \<Longrightarrow> int (getItemCount (run_ops (newStorageService mi ma) ops)) \<le> mi"
proof -
  assume "0 \<le> mi"
  then have "within_capacity (newStorageService mi ma)"
    by (simp add: within_capacity_def newStorageService_def)
  then have "within_capacity (run_ops (newStorageService mi ma) ops)"
    by (rule within_capacity_run_ops)
  then show ?thesis
    by (simp add: within_capacity_def getItemCount_def maxItems_run_ops newStorageService_def)
qed

lemmas store_eval =
  saveNewsItem_def isDuplicate_def map_has_def map_values_def newStorageService_def
  testItem_def cleanupOldItems_def cutoffDate_utc msPerDay_def oneHour_def
  enforceMemoryLimit.simps getNewsItem_def getItemCount_def Let_def

section \<open>Facts about the query\<close>

lemma sort_newest_first_sorted:
  "sorted_wrt (\<lambda>x y. pubDate x \<ge> pubDate y) (sort_newest_first items)"
proof -
  have "sorted (map (\<lambda>item. - pubDate item) (sort_key (\<lambda>item. - pubDate item) items))"
    by (rule sorted_sort_key)
  then show ?thesis by (simp add: sort_newest_first_def sorted_map)
qed

lemma sort_newest_first_mset: "mset (sort_newest_first items) = mset items"
  by (simp add: sort_newest_first_def)

lemma sort_newest_first_stable:
  "filter (\<lambda>item. pubDate item = d) (sort_newest_first items) = filter (\<lambda>item. pubDate item = d) items"
  using sort_key_stable[of "\<lambda>item. -pubDate item" "- d" items]
  by (simp add: sort_newest_first_def)

lemma sorted_wrt_take_drop:
  "sorted_wrt P xs \<Longrightarrow> sorted_wrt P (take n (drop k xs))"
  by (simp add: sorted_wrt_take sorted_wrt_drop)

lemma apply_offset_sorted:
  "sorted_wrt P items \<Longrightarrow> sorted_wrt P (apply_offset options items)"
  by (simp add: apply_offset_def slice_from_def sorted_wrt_drop split: option.splits)

lemma apply_limit_sorted:
  "sorted_wrt P items \<Longrightarrow> sorted_wrt P (apply_limit options items)"
  by (simp add: apply_limit_def slice_to_def sorted_wrt_take split: option.splits)

lemma filter_category_eq:
  "filter_category options items =
     filter (\<lambda>item. case opt_category options of
                      None \<Rightarrow> True | Some AllCategories \<Rightarrow> True | Some (Category c) \<Rightarrow> category item = c) items"
  by (simp add: filter_category_def split: option.splits category_option.splits)

lemma filter_startDate_eq:
  "filter_startDate options items =
     filter (\<lambda>item. case opt_startDate options of None \<Rightarrow> True | Some d \<Rightarrow> d \<le> pubDate item) items"
  by (simp add: filter_startDate_def split: option.splits)

lemma filter_endDate_eq:
  "filter_endDate options items =
     filter (\<lambda>item. case opt_endDate options of None \<Rightarrow> True | Some d \<Rightarrow> pubDate item \<le> d) items"
  by (simp add: filter_endDate_def split: option.splits)

lemma filter_source_eq:
  "opt_source options \<noteq> Some [] \<Longrightarrow>
   filter_source options items =
     filter (\<lambda>item. case opt_source options of None \<Rightarrow> True | Some src \<Rightarrow> source item = src) items"
  by (simp add: filter_source_def split: option.splits)

lemma filters_eq_spec_passes:
  assumes "opt_source options \<noteq> Some []"
  shows "filter_source options (filter_endDate options (filter_startDate options
           (filter_category options items)))
         = filter (spec_passes options) items"
  unfolding filter_source_eq[OF assms] filter_endDate_eq filter_startDate_eq filter_category_eq
    filter_filter spec_passes_def
  by (rule filter_cong) (simp_all add: conj_ac)

lemma slice_from_nonneg: "0 \<le> k \<Longrightarrow> slice_from k xs = drop (nat k) xs"
  by (cases "k \<le> int (length xs)") (simp_all add: slice_from_def relative_index_def min_def)

lemma slice_to_nonneg: "0 \<le> n \<Longrightarrow> slice_to n xs = take (nat n) xs"
  by (cases "n \<le> int (length xs)") (simp_all add: slice_to_def relative_index_def min_def)

lemma page_eq_spec_page:
  assumes "opt_limit options \<noteq> Some 0"
    and "case opt_offset options of None \<Rightarrow> True | Some k \<Rightarrow> 0 \<le> k"
    and "case opt_limit options of None \<Rightarrow> True | Some n \<Rightarrow> 0 \<le> n"
  shows "apply_limit options (apply_offset options items) = spec_page options items"
  using assms
  by (auto simp: apply_limit_def apply_offset_def spec_page_def slice_from_nonneg slice_to_nonneg
      split: option.splits)

lemma filters_eq_amended_passes:
  "filter_source options (filter_endDate options (filter_startDate options
      (filter_category options items)))
   = filter (amended_passes options) items"
proof -
  have "filter_source options (filter_endDate options (filter_startDate options
      (filter_category options items)))
    = filter (\<lambda>item. (case opt_source options of None \<Rightarrow> True | Some src \<Rightarrow> src = [] \<or> source item = src))
        (filter (\<lambda>item. case opt_endDate options of None \<Rightarrow> True | Some d \<Rightarrow> pubDate item \<le> d)
          (filter (\<lambda>item. case opt_startDate options of None \<Rightarrow> True | Some d \<Rightarrow> d \<le> pubDate item)
            (filter (\<lambda>item. case opt_category options of
                 None \<Rightarrow> True | Some AllCategories \<Rightarrow> True | Some (Category c) \<Rightarrow> category item = c)
              items)))"
    by (simp add: filter_source_def filter_endDate_def filter_startDate_def filter_category_def
        split: option.splits category_option.splits)
  also have "\<dots> = filter (amended_passes options) items"
    unfolding filter_filter amended_passes_def by (rule filter_cong[OF refl]) auto
  finally show ?thesis .
qed

lemma slice_from_neg: "k < 0 \<Longrightarrow> slice_from k xs = drop (length xs - nat (- k)) xs"
proof -
  assume "k < 0"
  then have "nat (max (int (length xs) + k) 0) = length xs - nat (- k)" by linarith
  with \<open>k < 0\<close> show ?thesis by (simp add: slice_from_def relative_index_def)
qed

lemma slice_to_neg: "n < 0 \<Longrightarrow> slice_to n xs = take (length xs - nat (- n)) xs"
proof -
  assume "n < 0"
  then have "nat (max (int (length xs) + n) 0) = length xs - nat (- n)" by linarith
  with \<open>n < 0\<close> show ?thesis by (simp add: slice_to_def relative_index_def)
qed

lemma page_eq_amended_page:
  "apply_limit options (apply_offset options items) = amended_page options items"
proof -
  have off: "apply_offset options items =
      (case opt_offset options of
         None \<Rightarrow> items
       | Some k \<Rightarrow> if 0 \<le> k then drop (nat k) items else drop (length items - nat (- k)) items)"
    by (simp add: apply_offset_def slice_from_nonneg slice_from_neg split: option.splits)
  have lim: "apply_limit options ys =
      (case opt_limit options of
         None \<Rightarrow> ys
       | Some n \<Rightarrow>
           if n = 0 then ys
           else if 0 < n then take (nat n) ys
           else take (length ys - nat (- n)) ys)" for ys :: "NewsItem list"
    by (simp add: apply_limit_def slice_to_nonneg slice_to_neg split: option.splits)
  show ?thesis unfolding lim off amended_page_def Let_def ..
qed

lemma getNewsItems_amended: "getNewsItems s options = amended_query s options"
  by (simp only: getNewsItems_def filters_eq_amended_passes page_eq_amended_page amended_query_def)


lemmas query_eval =
  getNewsItems_def filter_category_def filter_startDate_def filter_endDate_def
  filter_source_def sort_newest_first_def apply_offset_def apply_limit_def slice_from_def
  slice_to_def relative_index_def noOptions_def map_values_def

lemma getNewsItems_limit_0:
  "getNewsItems s (options\<lparr>opt_limit := Some 0\<rparr>) = getNewsItems s (options\<lparr>opt_limit := None\<rparr>)"
  by (simp add: query_eval)

lemma getNewsItems_source_empty:
  "getNewsItems s (options\<lparr>opt_source := Some []\<rparr>) = getNewsItems s (options\<lparr>opt_source := None\<rparr>)"
  by (simp add: query_eval)

lemma getNewsItems_negative_offset:
  assumes "k < 0"
  shows "getNewsItems s (options\<lparr>opt_offset := Some k, opt_limit := None\<rparr>)
     = (let q = getNewsItems s (options\<lparr>opt_offset := None, opt_limit := None\<rparr>)
        in drop (length q - nat (- k)) q)"
  using assms
  by (simp add: getNewsItems_def apply_limit_def apply_offset_def slice_from_neg Let_def
      filter_category_def filter_startDate_def filter_endDate_def filter_source_def)

lemma getNewsItems_negative_limit:
  assumes "n < 0"
  shows "getNewsItems s (options\<lparr>opt_limit := Some n\<rparr>)
     = (let q = getNewsItems s (options\<lparr>opt_limit := None\<rparr>)
        in take (length q - nat (- n)) q)"
  using assms
  by (simp add: getNewsItems_def apply_limit_def apply_offset_def slice_to_neg Let_def
      filter_category_def filter_startDate_def filter_endDate_def filter_source_def)

lemma queryStore_items:
  "newsItems queryStore =
     [(''test-1'', testItem ''test-1'' ''u1'' 3600000),
      (''test-2'', testItem ''test-2'' ''u2'' 7200000),
      (''test-3'', testItem ''test-3'' ''u3'' 0)]"
  by (simp add: queryStore_def store_eval)

section \<open>Claims about the store\<close>

text \<open>
  C1 (as amended). A save is rejected, with \<open>false\<close> and the store unchanged, whenever the
  id is already a key of the store or a stored item has the same link and a publication
  time at most one hour (inclusive) away. Saving the same item twice into an empty
  store leaves one item and makes the second save return \<open>false\<close>, provided the first
  save kept the item: the capacity is at least 1 and the item is not older than the
  retention age.
\<close>

theorem saveNewsItem_rejects_duplicate:
  "((map_has (item_id n) (newsItems s) \<or>
     (\<exists>e \<in> set (map_values (newsItems s)).
         link e = link n \<and> \<bar>pubDate e - pubDate n\<bar> \<le> 60 * 60 * 1000))
      \<longrightarrow> saveNewsItem now s n = (False, s))
   \<and> (newsItems s = [] \<and> 1 \<le> maxItems s \<and> \<not> pubDate n < cutoffDate now s
      \<longrightarrow> fst (saveNewsItem now s n)
          \<and> getItemCount (snd (saveNewsItem now s n)) = 1
          \<and> saveNewsItem now' (snd (saveNewsItem now s n)) n
               = (False, snd (saveNewsItem now s n)))"
proof (intro conjI impI)
  assume "map_has (item_id n) (newsItems s) \<or>
     (\<exists>e \<in> set (map_values (newsItems s)).
         link e = link n \<and> \<bar>pubDate e - pubDate n\<bar> \<le> 60 * 60 * 1000)"
  then have "isDuplicate s n"
    by (auto simp: isDuplicate_def list_ex_iff oneHour_def)
  then show "saveNewsItem now s n = (False, s)" by (rule saveNewsItem_duplicate)
next
  assume h: "newsItems s = [] \<and> 1 \<le> maxItems s \<and> \<not> pubDate n < cutoffDate now s"
  have nd: "\<not> isDuplicate s n" using h by (simp add: isDuplicate_iff)
  have r: "saveNewsItem now s n = (True, s\<lparr>newsItems := [(item_id n, n)]\<rparr>)"
    using saveNewsItem_below_capacity[OF nd, of now] h by (simp add: cleanupOldItems_def)
  show "fst (saveNewsItem now s n)" by (simp add: r)
  show "getItemCount (snd (saveNewsItem now s n)) = 1" by (simp add: r getItemCount_def)
  have "isDuplicate (s\<lparr>newsItems := [(item_id n, n)]\<rparr>) n" by (simp add: isDuplicate_iff)
  then show "saveNewsItem now' (snd (saveNewsItem now s n)) n = (False, snd (saveNewsItem now s n))"
    by (simp add: r saveNewsItem_duplicate)
qed

theorem saveNewsItem_rejects_duplicate_witness:
  "map_has ''test-1'' (newsItems (snd (saveNewsItem (utcClock 0) (newStorageService 1000 7) (testItem ''test-1'' ''u'' 0))))
   \<and> saveNewsItem (utcClock 5) (snd (saveNewsItem (utcClock 0) (newStorageService 1000 7) (testItem ''test-1'' ''u'' 0)))
        (testItem ''test-1'' ''u'' 0)
      = (False, snd (saveNewsItem (utcClock 0) (newStorageService 1000 7) (testItem ''test-1'' ''u'' 0)))
   \<and> saveNewsItem (utcClock 5) (snd (saveNewsItem (utcClock 0) (newStorageService 1000 7) (testItem ''test-1'' ''u'' 0)))
        (testItem ''test-2'' ''u'' 3600000)
      = (False, snd (saveNewsItem (utcClock 0) (newStorageService 1000 7) (testItem ''test-1'' ''u'' 0)))
   \<and> getItemCount (snd (saveNewsItem (utcClock 0) (newStorageService 1000 7) (testItem ''test-1'' ''u'' 0))) = 1"
  using saveNewsItem_rejects_duplicate
          [of "testItem ''test-1'' ''u'' 0"
              "snd (saveNewsItem (utcClock 0) (newStorageService 1000 7) (testItem ''test-1'' ''u'' 0))"
              "utcClock 5" "utcClock 5"]
        saveNewsItem_rejects_duplicate
          [of "testItem ''test-2'' ''u'' 3600000"
              "snd (saveNewsItem (utcClock 0) (newStorageService 1000 7) (testItem ''test-1'' ''u'' 0))"
              "utcClock 5" "utcClock 5"]
        saveNewsItem_rejects_duplicate
          [of "testItem ''test-1'' ''u'' 0" "newStorageService 1000 7" "utcClock 0" "utcClock 5"]
  by (simp add: store_eval)

text \<open>
  C1 as stated fails for an item that is older than the retention age: both saves
  return \<open>true\<close> and the store stays empty.
\<close>

theorem saveNewsItem_twice_counterexample:
  "fst (saveNewsItem (utcClock (30 * msPerDay))
          (snd (saveNewsItem (utcClock (30 * msPerDay)) (newStorageService 1000 7) (testItem ''test-1'' ''u'' 0)))
          (testItem ''test-1'' ''u'' 0))
   \<and> getItemCount (snd (saveNewsItem (utcClock (30 * msPerDay))
          (snd (saveNewsItem (utcClock (30 * msPerDay)) (newStorageService 1000 7) (testItem ''test-1'' ''u'' 0)))
          (testItem ''test-1'' ''u'' 0))) = 0"
  by (simp add: store_eval)


text \<open>
  C3 (as amended). After a save that returns \<open>true\<close>, no stored item was published
  before the cut-off. The cut-off is the local time of the clock reading moved back by
  \<open>maxAgeInDays\<close> calendar days and read in the offset in force then: \<open>maxAgeInDays\<close>
  times 24 hours before the reading, shifted by the change of the offset between the two
  instants. So where the offset is the same at both, the cut-off is that many times 24
  hours back; where the offset has not dropped by 24 hours or more, no stored item was
  published \<open>maxAgeInDays + 1\<close> days or more before the reading; and where it has not
  risen by more than \<open>maxAgeInDays\<close> times 24 hours, the reading itself is not before the
  cut-off. An item that is saved and is no duplicate is retrievable afterwards exactly
  if it was not published before the cut-off and fewer than \<open>maxItems\<close> of the stored
  items are dated later than it (the keys of the store being distinct, as those of a
  \<open>Map\<close> are).
\<close>

theorem saveNewsItem_retention_after_success:
  "(fst (saveNewsItem now s n) \<longrightarrow>
      (\<forall>item \<in> set (map_values (newsItems (snd (saveNewsItem now s n)))).
          \<not> pubDate item < cutoffDate now s))
   \<and> cutoffDate now s =
        getTime now + localTZA_utc now (getTime now) - maxAgeInDays s * (24 * 60 * 60 * 1000)
          - localTZA_local now
              (getTime now + localTZA_utc now (getTime now) - maxAgeInDays s * (24 * 60 * 60 * 1000))
   \<and> (localTZA_local now
          (getTime now + localTZA_utc now (getTime now) - maxAgeInDays s * (24 * 60 * 60 * 1000))
        = localTZA_utc now (getTime now)
      \<longrightarrow> cutoffDate now s = getTime now - maxAgeInDays s * (24 * 60 * 60 * 1000))
   \<and> (fst (saveNewsItem now s n)
        \<and> localTZA_local now
              (getTime now + localTZA_utc now (getTime now) - maxAgeInDays s * (24 * 60 * 60 * 1000))
            - localTZA_utc now (getTime now) < 24 * 60 * 60 * 1000
      \<longrightarrow> (\<forall>item \<in> set (map_values (newsItems (snd (saveNewsItem now s n)))).
             getTime now - (maxAgeInDays s + 1) * (24 * 60 * 60 * 1000) < pubDate item))
   \<and> (localTZA_utc now (getTime now)
        - localTZA_local now
            (getTime now + localTZA_utc now (getTime now) - maxAgeInDays s * (24 * 60 * 60 * 1000))
        \<le> maxAgeInDays s * (24 * 60 * 60 * 1000)
      \<longrightarrow> cutoffDate now s \<le> getTime now)
   \<and> (\<not> isDuplicate s n \<and> distinct (map fst (newsItems s))
      \<longrightarrow> (getNewsItem (snd (saveNewsItem now s n)) (item_id n) = Some n
           \<longleftrightarrow> \<not> pubDate n < cutoffDate now s
               \<and> int (length (filter (\<lambda>item. pubDate n < pubDate item) (map_values (newsItems s))))
                   < maxItems s))"
proof (intro conjI; (rule impI)?)
  assume ok: "fst (saveNewsItem now s n)"
  show "\<forall>item \<in> set (map_values (newsItems (snd (saveNewsItem now s n)))).
          \<not> pubDate item < cutoffDate now s"
  proof
    fix item
    assume "item \<in> set (map_values (newsItems (snd (saveNewsItem now s n))))"
    then obtain p where "p \<in> set (newsItems (snd (saveNewsItem now s n)))" and "item = snd p"
      by (auto simp: map_values_def)
    with saveNewsItem_retention[OF ok] show "\<not> pubDate item < cutoffDate now s" by simp
  qed
next
  show "cutoffDate now s =
        getTime now + localTZA_utc now (getTime now) - maxAgeInDays s * (24 * 60 * 60 * 1000)
          - localTZA_local now
              (getTime now + localTZA_utc now (getTime now) - maxAgeInDays s * (24 * 60 * 60 * 1000))"
    using cutoffDate_local[of now s] by (simp add: msPerDay_def)
next
  assume "localTZA_local now
          (getTime now + localTZA_utc now (getTime now) - maxAgeInDays s * (24 * 60 * 60 * 1000))
        = localTZA_utc now (getTime now)"
  then show "cutoffDate now s = getTime now - maxAgeInDays s * (24 * 60 * 60 * 1000)"
    using cutoffDate_same_offset[of now s] by (simp add: msPerDay_def)
next
  assume h: "fst (saveNewsItem now s n)
        \<and> localTZA_local now
              (getTime now + localTZA_utc now (getTime now) - maxAgeInDays s * (24 * 60 * 60 * 1000))
            - localTZA_utc now (getTime now) < 24 * 60 * 60 * 1000"
  then have ok: "fst (saveNewsItem now s n)" by simp
  have cut: "getTime now - (maxAgeInDays s + 1) * (24 * 60 * 60 * 1000) < cutoffDate now s"
    using h cutoffDate_local[of now s] by (simp add: msPerDay_def algebra_simps)
  show "\<forall>item \<in> set (map_values (newsItems (snd (saveNewsItem now s n)))).
             getTime now - (maxAgeInDays s + 1) * (24 * 60 * 60 * 1000) < pubDate item"
  proof
    fix item
    assume "item \<in> set (map_values (newsItems (snd (saveNewsItem now s n))))"
    then obtain p where "p \<in> set (newsItems (snd (saveNewsItem now s n)))" and "item = snd p"
      by (auto simp: map_values_def)
    with saveNewsItem_retention[OF ok] have "\<not> pubDate item < cutoffDate now s" by simp
    with cut show "getTime now - (maxAgeInDays s + 1) * (24 * 60 * 60 * 1000) < pubDate item"
      by linarith
  qed
next
  assume "localTZA_utc now (getTime now)
        - localTZA_local now
            (getTime now + localTZA_utc now (getTime now) - maxAgeInDays s * (24 * 60 * 60 * 1000))
        \<le> maxAgeInDays s * (24 * 60 * 60 * 1000)"
  then show "cutoffDate now s \<le> getTime now"
    using cutoffDate_local[of now s] by (simp add: msPerDay_def)
next
  assume h: "\<not> isDuplicate s n \<and> distinct (map fst (newsItems s))"
  have len: "length (filter (\<lambda>item. pubDate n < pubDate item) (map_values (newsItems s)))
          = length (filter (\<lambda>q. pubDate n < pubDate (snd q)) (newsItems s))"
  proof -
    have "filter (\<lambda>item. pubDate n < pubDate item) (map_values (newsItems s))
          = map snd (filter (\<lambda>q. pubDate n < pubDate (snd q)) (newsItems s))"
      by (simp add: map_values_def filter_map comp_def)
    then show ?thesis by simp
  qed
  show "getNewsItem (snd (saveNewsItem now s n)) (item_id n) = Some n
           \<longleftrightarrow> \<not> pubDate n < cutoffDate now s
               \<and> int (length (filter (\<lambda>item. pubDate n < pubDate item) (map_values (newsItems s))))
                   < maxItems s"
  proof (cases "pubDate n < cutoffDate now s")
    case True
    then have "getNewsItem (snd (saveNewsItem now s n)) (item_id n) = None"
      using saveNewsItem_stale[of s n now] h by simp
    with True show ?thesis by simp
  next
    case False
    then show ?thesis using saveNewsItem_kept_iff[of s n now] h len by simp
  qed
qed

text \<open>
  maxAgeInDays = 1, UTC: an item is saved on day 0; on day 2, when it is 2 days in the
  past, a save of an item published at that very reading succeeds, the cut-off is day
  1, the first item is gone and the new one is the one stored item.
\<close>

theorem saveNewsItem_retention_after_success_witness:
  "fst (saveNewsItem (utcClock (2 * msPerDay))
          (snd (saveNewsItem (utcClock 0) (newStorageService 1000 1) (testItem ''old-item'' ''u1'' 0)))
          (testItem ''recent-item'' ''u2'' (2 * msPerDay)))
   \<and> getNewsItem (snd (saveNewsItem (utcClock 0) (newStorageService 1000 1) (testItem ''old-item'' ''u1'' 0)))
        ''old-item'' = Some (testItem ''old-item'' ''u1'' 0)
   \<and> pubDate (testItem ''old-item'' ''u1'' 0) = getTime (utcClock (2 * msPerDay)) - 2 * msPerDay
   \<and> map_values (newsItems (snd (saveNewsItem (utcClock (2 * msPerDay))
          (snd (saveNewsItem (utcClock 0) (newStorageService 1000 1) (testItem ''old-item'' ''u1'' 0)))
          (testItem ''recent-item'' ''u2'' (2 * msPerDay)))))
        = [testItem ''recent-item'' ''u2'' (2 * msPerDay)]
   \<and> localTZA_local (utcClock (2 * msPerDay)) (2 * msPerDay + 0 - 1 * (24 * 60 * 60 * 1000))
        = localTZA_utc (utcClock (2 * msPerDay)) (2 * msPerDay)
   \<and> localTZA_local (utcClock (2 * msPerDay)) (2 * msPerDay + 0 - 1 * (24 * 60 * 60 * 1000))
        - localTZA_utc (utcClock (2 * msPerDay)) (2 * msPerDay) < 24 * 60 * 60 * 1000
   \<and> localTZA_utc (utcClock (2 * msPerDay)) (2 * msPerDay)
        - localTZA_local (utcClock (2 * msPerDay)) (2 * msPerDay + 0 - 1 * (24 * 60 * 60 * 1000))
        \<le> 1 * (24 * 60 * 60 * 1000)
   \<and> cutoffDate (utcClock (2 * msPerDay))
        (snd (saveNewsItem (utcClock 0) (newStorageService 1000 1) (testItem ''old-item'' ''u1'' 0)))
        = 86400000
   \<and> cutoffDate (utcClock (2 * msPerDay))
        (snd (saveNewsItem (utcClock 0) (newStorageService 1000 1) (testItem ''old-item'' ''u1'' 0)))
        \<le> getTime (utcClock (2 * msPerDay))
   \<and> \<not> isDuplicate (snd (saveNewsItem (utcClock 0) (newStorageService 1000 1) (testItem ''old-item'' ''u1'' 0)))
          (testItem ''recent-item'' ''u2'' (2 * msPerDay))
   \<and> distinct (map fst (newsItems
          (snd (saveNewsItem (utcClock 0) (newStorageService 1000 1) (testItem ''old-item'' ''u1'' 0)))))
   \<and> pubDate (testItem ''recent-item'' ''u2'' (2 * msPerDay)) = getTime (utcClock (2 * msPerDay))
   \<and> int (length (filter (\<lambda>item. pubDate (testItem ''recent-item'' ''u2'' (2 * msPerDay)) < pubDate item)
          (map_values (newsItems
             (snd (saveNewsItem (utcClock 0) (newStorageService 1000 1) (testItem ''old-item'' ''u1'' 0)))))))
        < 1000
   \<and> getNewsItem (snd (saveNewsItem (utcClock (2 * msPerDay))
          (snd (saveNewsItem (utcClock 0) (newStorageService 1000 1) (testItem ''old-item'' ''u1'' 0)))
          (testItem ''recent-item'' ''u2'' (2 * msPerDay)))) ''recent-item''
        = Some (testItem ''recent-item'' ''u2'' (2 * msPerDay))
   \<and> getNewsItem (snd (saveNewsItem (utcClock (2 * msPerDay))
          (snd (saveNewsItem (utcClock 0) (newStorageService 1000 1) (testItem ''old-item'' ''u1'' 0)))
          (testItem ''recent-item'' ''u2'' (2 * msPerDay)))) ''old-item'' = None"
  using saveNewsItem_retention_after_success
          [of "utcClock (2 * msPerDay)"
              "snd (saveNewsItem (utcClock 0) (newStorageService 1000 1) (testItem ''old-item'' ''u1'' 0))"
              "testItem ''recent-item'' ''u2'' (2 * msPerDay)"]
  by (simp add: store_eval getTime_utcClock localTZA_utcClock)

text \<open>
  C3 as stated fails in five ways, each with maxAgeInDays = 1 but the last. An item
  saved on day 0 is still stored on day 3 after a save that is rejected as a duplicate.
  In a zone that moved its clocks back by one hour twelve hours ago (as New York did on
  3 November 2024 at 06:00 UTC, from the offset -4 h to -5 h; the reading is 18:00 UTC),
  a save succeeds and keeps an item published 24.5 hours before the reading: the
  cut-off is 13:00 local time of the day before, 25 hours back. In a zone that repeated a
  calendar day twelve hours ago (from the offset +13 h to -11 h), a save succeeds and
  keeps an item published exactly 2 days before the reading. With a capacity of 1 and a
  stored item dated one hour ahead, an item published at the very reading is saved with
  \<open>true\<close> and evicted at once as the oldest. And with maxAgeInDays = -1 the cut-off
  lies a day ahead, so an item published at the reading is saved with \<open>true\<close> and
  purged.
\<close>

theorem saveNewsItem_retention_counterexample:
  "\<not> fst (saveNewsItem (utcClock (3 * msPerDay))
            (snd (saveNewsItem (utcClock 0) (newStorageService 1000 1) (testItem ''test-1'' ''u'' 0)))
            (testItem ''test-1'' ''u'' 0))
   \<and> getNewsItem (snd (saveNewsItem (utcClock (3 * msPerDay))
            (snd (saveNewsItem (utcClock 0) (newStorageService 1000 1) (testItem ''test-1'' ''u'' 0)))
            (testItem ''test-1'' ''u'' 0))) ''test-1''
        = Some (testItem ''test-1'' ''u'' 0)
   \<and> pubDate (testItem ''test-1'' ''u'' 0) < getTime (utcClock (3 * msPerDay)) - 1 * msPerDay
   \<and> fst (saveNewsItem (zoneClock 1730613600000 (- 14400000) (- 18000000) 1730656800000)
            (newStorageService 1000 1) (testItem ''test-2'' ''u2'' 1730568600000))
   \<and> getNewsItem (snd (saveNewsItem (zoneClock 1730613600000 (- 14400000) (- 18000000) 1730656800000)
            (newStorageService 1000 1) (testItem ''test-2'' ''u2'' 1730568600000))) ''test-2''
        = Some (testItem ''test-2'' ''u2'' 1730568600000)
   \<and> pubDate (testItem ''test-2'' ''u2'' 1730568600000)
        < getTime (zoneClock 1730613600000 (- 14400000) (- 18000000) 1730656800000) - 1 * msPerDay
   \<and> fst (saveNewsItem (zoneClock 0 46800000 (- 39600000) 43200000)
            (newStorageService 1000 1) (testItem ''test-3'' ''u3'' (- 129600000)))
   \<and> getNewsItem (snd (saveNewsItem (zoneClock 0 46800000 (- 39600000) 43200000)
            (newStorageService 1000 1) (testItem ''test-3'' ''u3'' (- 129600000)))) ''test-3''
        = Some (testItem ''test-3'' ''u3'' (- 129600000))
   \<and> pubDate (testItem ''test-3'' ''u3'' (- 129600000))
        = getTime (zoneClock 0 46800000 (- 39600000) 43200000) - 2 * msPerDay
   \<and> fst (saveNewsItem (utcClock 0)
            (snd (saveNewsItem (utcClock 0) (newStorageService 1 1) (testItem ''test-4'' ''u4'' 3600000)))
            (testItem ''test-5'' ''u5'' 0))
   \<and> pubDate (testItem ''test-5'' ''u5'' 0) = getTime (utcClock 0)
   \<and> getNewsItem (snd (saveNewsItem (utcClock 0)
            (snd (saveNewsItem (utcClock 0) (newStorageService 1 1) (testItem ''test-4'' ''u4'' 3600000)))
            (testItem ''test-5'' ''u5'' 0))) ''test-5'' = None
   \<and> fst (saveNewsItem (utcClock 0) (newStorageService 1000 (- 1)) (testItem ''test-6'' ''u6'' 0))
   \<and> pubDate (testItem ''test-6'' ''u6'' 0) = getTime (utcClock 0)
   \<and> getNewsItem (snd (saveNewsItem (utcClock 0) (newStorageService 1000 (- 1))
            (testItem ''test-6'' ''u6'' 0))) ''test-6'' = None"
  by (simp add: store_eval map_delete_def cutoffDate_zone getTime_utcClock getTime_zoneClock)

text \<open>
  C4 (as amended). With a capacity that is not negative, the store holds at most
  \<open>maxItems\<close> items after a save that returns \<open>true\<close>, and after a rejected save if it did
  before. What the capacity loop removes from the store as it is after insertion and
  retention cleanup is no newer than anything it keeps, and it stops at exactly
  \<open>maxItems\<close> items. With capacity 2, saving three items with distinct ids and
  publication times, no two of them duplicates by link and time and none older than the
  retention age, into an empty store keeps the two newest; the oldest is no longer retrievable. Every store reached from a fresh one
  by saves, batch saves, updates and deletes holds at most \<open>maxItems\<close> items.
\<close>

theorem enforceMemoryLimit_capacity:
  "(0 \<le> maxItems s \<and> (fst (saveNewsItem now s n) \<or> int (getItemCount s) \<le> maxItems s)
      \<longrightarrow> int (getItemCount (snd (saveNewsItem now s n))) \<le> maxItems s)
   \<and> (0 \<le> maxItems s \<and> distinct (map fst (newsItems s)) \<and> \<not> isDuplicate s n
      \<longrightarrow> (let before = newsItems (cleanupOldItems now
                          (s\<lparr>newsItems := map_set (item_id n) n (newsItems s)\<rparr>));
               after = newsItems (snd (saveNewsItem now s n))
           in set after \<subseteq> set before
              \<and> (maxItems s \<le> int (length before) \<longrightarrow> int (length after) = maxItems s)
              \<and> (\<forall>r \<in> set before - set after. \<forall>k \<in> set after.
                    pubDate (snd r) \<le> pubDate (snd k))))
   \<and> (newsItems s = [] \<and> maxItems s = 2
        \<and> distinct [item_id a, item_id b, item_id c]
        \<and> \<not> (link a = link b \<and> \<bar>pubDate a - pubDate b\<bar> \<le> 3600000)
        \<and> \<not> (link a = link c \<and> \<bar>pubDate a - pubDate c\<bar> \<le> 3600000)
        \<and> \<not> (link b = link c \<and> \<bar>pubDate b - pubDate c\<bar> \<le> 3600000)
        \<and> distinct [pubDate a, pubDate b, pubDate c]
        \<and> (\<forall>x \<in> {a, b, c}. \<not> pubDate x < cutoffDate now s)
      \<longrightarrow> fst (saveNewsItems now s [a, b, c]) = 3
          \<and> getItemCount (snd (saveNewsItems now s [a, b, c])) = 2
          \<and> (\<forall>x \<in> {a, b, c}.
                getNewsItem (snd (saveNewsItems now s [a, b, c])) (item_id x)
                  = (if pubDate x = Min {pubDate a, pubDate b, pubDate c} then None else Some x)))
   \<and> (0 \<le> mi
      \<longrightarrow> int (getItemCount (run_ops (newStorageService mi ma) ops)) \<le> mi)"
proof (intro conjI; rule impI)
  assume h: "0 \<le> maxItems s \<and> (fst (saveNewsItem now s n) \<or> int (getItemCount s) \<le> maxItems s)"
  show "int (getItemCount (snd (saveNewsItem now s n))) \<le> maxItems s"
  proof (cases "isDuplicate s n")
    case True
    with h show ?thesis by (simp add: saveNewsItem_duplicate)
  next
    case False
    have "int (length (newsItems (enforceMemoryLimit
            (cleanupOldItems now (s\<lparr>newsItems := newsItems s @ [(item_id n, n)]\<rparr>)))))
          \<le> maxItems (cleanupOldItems now (s\<lparr>newsItems := newsItems s @ [(item_id n, n)]\<rparr>))"
      using h by (intro enforceMemoryLimit_length) (simp add: cleanupOldItems_def)
    then show ?thesis
      by (simp add: saveNewsItem_fresh[OF False] getItemCount_def cleanupOldItems_def)
  qed
next
  assume h: "0 \<le> maxItems s \<and> distinct (map fst (newsItems s)) \<and> \<not> isDuplicate s n"
  then have nd: "\<not> isDuplicate s n" by simp
  have nk: "item_id n \<notin> fst ` set (newsItems s)" using nd by (simp add: isDuplicate_iff)
  define s2 where "s2 = cleanupOldItems now (s\<lparr>newsItems := map_set (item_id n) n (newsItems s)\<rparr>)"
  have after: "snd (saveNewsItem now s n) = enforceMemoryLimit s2"
    using nd by (simp add: saveNewsItem_def s2_def Let_def)
  have mi: "maxItems s2 = maxItems s" by (simp add: s2_def cleanupOldItems_def)
  have "distinct (map fst (map_set (item_id n) n (newsItems s)))"
    using h by (simp add: map_set_distinct)
  then have d2: "distinct (map fst (newsItems s2))"
    by (simp add: s2_def cleanupOldItems_def distinct_map_filter)
  have sub: "set (newsItems (enforceMemoryLimit s2)) \<subseteq> set (newsItems s2)"
    by (rule enforceMemoryLimit_subset)
  have exact: "maxItems s \<le> int (length (newsItems s2)) \<longrightarrow>
                 int (length (newsItems (enforceMemoryLimit s2))) = maxItems s"
    using enforceMemoryLimit_exact[OF d2] h mi by simp
  have oldest: "\<forall>r \<in> set (newsItems s2) - set (newsItems (enforceMemoryLimit s2)).
                  \<forall>k \<in> set (newsItems (enforceMemoryLimit s2)). pubDate (snd r) \<le> pubDate (snd k)"
    using enforceMemoryLimit_oldest[OF d2] by blast
  show "let before = newsItems (cleanupOldItems now
                          (s\<lparr>newsItems := map_set (item_id n) n (newsItems s)\<rparr>));
               after = newsItems (snd (saveNewsItem now s n))
           in set after \<subseteq> set before
              \<and> (maxItems s \<le> int (length before) \<longrightarrow> int (length after) = maxItems s)
              \<and> (\<forall>r \<in> set before - set after. \<forall>k \<in> set after.
                    pubDate (snd r) \<le> pubDate (snd k))"
    unfolding Let_def after s2_def[symmetric] using sub exact oldest by blast
next
  assume "newsItems s = [] \<and> maxItems s = 2
        \<and> distinct [item_id a, item_id b, item_id c]
        \<and> \<not> (link a = link b \<and> \<bar>pubDate a - pubDate b\<bar> \<le> 3600000)
        \<and> \<not> (link a = link c \<and> \<bar>pubDate a - pubDate c\<bar> \<le> 3600000)
        \<and> \<not> (link b = link c \<and> \<bar>pubDate b - pubDate c\<bar> \<le> 3600000)
        \<and> distinct [pubDate a, pubDate b, pubDate c]
        \<and> (\<forall>x \<in> {a, b, c}. \<not> pubDate x < cutoffDate now s)"
  then show "fst (saveNewsItems now s [a, b, c]) = 3
          \<and> getItemCount (snd (saveNewsItems now s [a, b, c])) = 2
          \<and> (\<forall>x \<in> {a, b, c}.
                getNewsItem (snd (saveNewsItems now s [a, b, c])) (item_id x)
                  = (if pubDate x = Min {pubDate a, pubDate b, pubDate c} then None else Some x))"
    by (rule three_items_keep_newest)
next
  assume "0 \<le> mi"
  then show "int (getItemCount (run_ops (newStorageService mi ma) ops)) \<le> mi"
    by (rule capacity_reachable)
qed

text \<open>
  The scenario of the store's own test: capacity 2, three items published three, two
  and one hour before the clock reading 10800000.
\<close>

theorem enforceMemoryLimit_capacity_witness:
  "fst (saveNewsItems (utcClock 10800000) (newStorageService 2 7)
          [testItem ''test-1'' ''u1'' 0, testItem ''test-2'' ''u2'' 3600000,
           testItem ''test-3'' ''u3'' 7200000]) = 3
   \<and> getItemCount (snd (saveNewsItems (utcClock 10800000) (newStorageService 2 7)
          [testItem ''test-1'' ''u1'' 0, testItem ''test-2'' ''u2'' 3600000,
           testItem ''test-3'' ''u3'' 7200000])) = 2
   \<and> getNewsItem (snd (saveNewsItems (utcClock 10800000) (newStorageService 2 7)
          [testItem ''test-1'' ''u1'' 0, testItem ''test-2'' ''u2'' 3600000,
           testItem ''test-3'' ''u3'' 7200000])) ''test-1'' = None
   \<and> getNewsItem (snd (saveNewsItems (utcClock 10800000) (newStorageService 2 7)
          [testItem ''test-1'' ''u1'' 0, testItem ''test-2'' ''u2'' 3600000,
           testItem ''test-3'' ''u3'' 7200000])) ''test-2''
        = Some (testItem ''test-2'' ''u2'' 3600000)
   \<and> getNewsItem (snd (saveNewsItems (utcClock 10800000) (newStorageService 2 7)
          [testItem ''test-1'' ''u1'' 0, testItem ''test-2'' ''u2'' 3600000,
           testItem ''test-3'' ''u3'' 7200000])) ''test-3''
        = Some (testItem ''test-3'' ''u3'' 7200000)
   \<and> \<not> isDuplicate (snd (saveNewsItems (utcClock 10800000) (newStorageService 2 7)
          [testItem ''test-1'' ''u1'' 0, testItem ''test-2'' ''u2'' 3600000]))
        (testItem ''test-3'' ''u3'' 7200000)
   \<and> newsItems (snd (saveNewsItem (utcClock 10800000)
          (snd (saveNewsItems (utcClock 10800000) (newStorageService 2 7)
             [testItem ''test-1'' ''u1'' 0, testItem ''test-2'' ''u2'' 3600000]))
          (testItem ''test-3'' ''u3'' 7200000)))
        = [(''test-2'', testItem ''test-2'' ''u2'' 3600000),
           (''test-3'', testItem ''test-3'' ''u3'' 7200000)]
   \<and> int (getItemCount (run_ops (newStorageService 2 7)
          [SaveAll (utcClock 10800000) [testItem ''test-1'' ''u1'' 0, testItem ''test-2'' ''u2'' 3600000,
             testItem ''test-3'' ''u3'' 7200000],
           Delete ''test-2'', Save (utcClock 10800000) (testItem ''test-4'' ''u4'' 9000000)])) \<le> 2"
  using enforceMemoryLimit_capacity
          [where s = "newStorageService 2 7" and now = "utcClock 10800000"
             and a = "testItem ''test-1'' ''u1'' 0" and b = "testItem ''test-2'' ''u2'' 3600000"
             and c = "testItem ''test-3'' ''u3'' 7200000"
             and n = "testItem ''test-1'' ''u1'' 0" and mi = 2 and ma = 7
             and ops = "[SaveAll (utcClock 10800000) [testItem ''test-1'' ''u1'' 0,
                           testItem ''test-2'' ''u2'' 3600000, testItem ''test-3'' ''u3'' 7200000],
                         Delete ''test-2'', Save (utcClock 10800000) (testItem ''test-4'' ''u4'' 9000000)]"]
        enforceMemoryLimit_capacity
          [where s = "snd (saveNewsItems (utcClock 10800000) (newStorageService 2 7)
                        [testItem ''test-1'' ''u1'' 0, testItem ''test-2'' ''u2'' 3600000])"
             and now = "utcClock 10800000"
             and n = "testItem ''test-3'' ''u3'' 7200000"
             and a = "testItem ''test-1'' ''u1'' 0" and b = "testItem ''test-2'' ''u2'' 3600000"
             and c = "testItem ''test-3'' ''u3'' 7200000"]
  by (simp add: store_eval map_delete_def)

text \<open>
  Three items that are all older than the retention age leave an empty store, not two
  items; and a store built with a negative capacity holds 0 items, which is more than
  its capacity.
\<close>

theorem enforceMemoryLimit_capacity_counterexample:
  "getItemCount (snd (saveNewsItems (utcClock (30 * msPerDay)) (newStorageService 2 7)
          [testItem ''test-1'' ''u1'' 0, testItem ''test-2'' ''u2'' 3600000,
           testItem ''test-3'' ''u3'' 7200000])) = 0
   \<and> getNewsItem (snd (saveNewsItems (utcClock (30 * msPerDay)) (newStorageService 2 7)
          [testItem ''test-1'' ''u1'' 0, testItem ''test-2'' ''u2'' 3600000,
           testItem ''test-3'' ''u3'' 7200000])) ''test-3'' = None
   \<and> \<not> int (getItemCount (snd (saveNewsItem (utcClock 0) (newStorageService (- 1) 7)
          (testItem ''test-1'' ''u1'' 0)))) \<le> maxItems (newStorageService (- 1) 7)"
  by (simp add: store_eval map_delete_def)

text \<open>
  C8 (as amended). For every store and every filter whose source is absent or not
  empty, whose limit is absent or positive and whose offset is absent or not negative,
  the query returns what the specification's wording gives: the stored items that pass
  the category filter (all of them for the wildcard or an absent category), the source
  filter and the inclusive date bounds, sorted by publication time descending, with the
  offset applied before the limit. The result is sorted that way for every filter;
  without offset and limit it holds exactly the stored items that pass; with no filter
  it is all items sorted newest first. For every filter whatsoever the query is the
  amended one: an empty source string and a limit of 0 give what an absent one gives, a
  negative offset keeps only the last \<open>|offset|\<close> items of the sorted list, and a
  negative limit drops the last \<open>|limit|\<close> items.
\<close>

theorem getNewsItems_query:
  "(opt_source options \<noteq> Some [] \<and> opt_limit options \<noteq> Some 0
      \<and> (case opt_offset options of None \<Rightarrow> True | Some k \<Rightarrow> 0 \<le> k)
      \<and> (case opt_limit options of None \<Rightarrow> True | Some n \<Rightarrow> 0 \<le> n)
     \<longrightarrow> getNewsItems s options = spec_query s options)
   \<and> sorted_wrt (\<lambda>x y. pubDate x \<ge> pubDate y) (getNewsItems s options)
   \<and> (opt_source options \<noteq> Some [] \<and> opt_offset options = None \<and> opt_limit options = None
     \<longrightarrow> mset (getNewsItems s options)
           = filter_mset (spec_passes options) (mset (map_values (newsItems s))))
   \<and> getNewsItems s noOptions = sort_newest_first (map_values (newsItems s))
   \<and> mset (getNewsItems s noOptions) = mset (map_values (newsItems s))
   \<and> getNewsItems s options = amended_query s options
   \<and> getNewsItems s (options\<lparr>opt_limit := Some 0\<rparr>) = getNewsItems s (options\<lparr>opt_limit := None\<rparr>)
   \<and> getNewsItems s (options\<lparr>opt_source := Some []\<rparr>)
        = getNewsItems s (options\<lparr>opt_source := None\<rparr>)
   \<and> (k < 0 \<longrightarrow>
        getNewsItems s (options\<lparr>opt_offset := Some k, opt_limit := None\<rparr>)
          = (let q = getNewsItems s (options\<lparr>opt_offset := None, opt_limit := None\<rparr>)
             in drop (length q - nat (- k)) q))
   \<and> (n < 0 \<longrightarrow>
        getNewsItems s (options\<lparr>opt_limit := Some n\<rparr>)
          = (let q = getNewsItems s (options\<lparr>opt_limit := None\<rparr>)
             in take (length q - nat (- n)) q))"
proof (intro conjI; (rule impI)?)
  assume h: "opt_source options \<noteq> Some [] \<and> opt_limit options \<noteq> Some 0
      \<and> (case opt_offset options of None \<Rightarrow> True | Some k \<Rightarrow> 0 \<le> k)
      \<and> (case opt_limit options of None \<Rightarrow> True | Some n \<Rightarrow> 0 \<le> n)"
  then have src: "opt_source options \<noteq> Some []" by simp
  have "getNewsItems s options
          = apply_limit options (apply_offset options
              (sort_newest_first (filter (spec_passes options) (map_values (newsItems s)))))"
    by (simp only: getNewsItems_def filters_eq_spec_passes[OF src])
  also have "\<dots> = spec_page options
              (sort_newest_first (filter (spec_passes options) (map_values (newsItems s))))"
    using h by (intro page_eq_spec_page) simp_all
  finally show "getNewsItems s options = spec_query s options"
    by (simp add: spec_query_def)
next
  show "sorted_wrt (\<lambda>x y. pubDate x \<ge> pubDate y) (getNewsItems s options)"
    unfolding getNewsItems_def
    by (intro apply_limit_sorted apply_offset_sorted sort_newest_first_sorted)
next
  assume h: "opt_source options \<noteq> Some [] \<and> opt_offset options = None \<and> opt_limit options = None"
  then have src: "opt_source options \<noteq> Some []" by simp
  have "getNewsItems s options
          = sort_newest_first (filter (spec_passes options) (map_values (newsItems s)))"
    using h by (simp add: getNewsItems_def filters_eq_spec_passes[OF src]
        apply_limit_def apply_offset_def)
  then show "mset (getNewsItems s options)
           = filter_mset (spec_passes options) (mset (map_values (newsItems s)))"
    by (simp add: sort_newest_first_mset)
next
  show eq: "getNewsItems s noOptions = sort_newest_first (map_values (newsItems s))"
    by (simp add: getNewsItems_def noOptions_def filter_category_def filter_startDate_def
        filter_endDate_def filter_source_def apply_offset_def apply_limit_def)
  show "mset (getNewsItems s noOptions) = mset (map_values (newsItems s))"
    by (simp add: eq sort_newest_first_mset)
next
  show "getNewsItems s options = amended_query s options" by (rule getNewsItems_amended)
next
  show "getNewsItems s (options\<lparr>opt_limit := Some 0\<rparr>) = getNewsItems s (options\<lparr>opt_limit := None\<rparr>)"
    by (rule getNewsItems_limit_0)
next
  show "getNewsItems s (options\<lparr>opt_source := Some []\<rparr>)
        = getNewsItems s (options\<lparr>opt_source := None\<rparr>)"
    by (rule getNewsItems_source_empty)
next
  assume "k < 0"
  then show "getNewsItems s (options\<lparr>opt_offset := Some k, opt_limit := None\<rparr>)
          = (let q = getNewsItems s (options\<lparr>opt_offset := None, opt_limit := None\<rparr>)
             in drop (length q - nat (- k)) q)"
    by (rule getNewsItems_negative_offset)
next
  assume "n < 0"
  then show "getNewsItems s (options\<lparr>opt_limit := Some n\<rparr>)
          = (let q = getNewsItems s (options\<lparr>opt_limit := None\<rparr>)
             in take (length q - nat (- n)) q)"
    by (rule getNewsItems_negative_limit)
qed

text \<open>
  The store of three items: a filter with every option set, a filter with an end date
  only, and a negative offset and limit.
\<close>

theorem getNewsItems_query_witness:
  "getNewsItems queryStore
      \<lparr>opt_category = Some (Category AI_MODELS), opt_startDate = Some 0,
       opt_endDate = Some 7200000, opt_source = Some ''Source A'',
       opt_limit = Some 1, opt_offset = Some 1\<rparr>
     = [testItem ''test-1'' ''u1'' 3600000]
   \<and> spec_query queryStore
      \<lparr>opt_category = Some (Category AI_MODELS), opt_startDate = Some 0,
       opt_endDate = Some 7200000, opt_source = Some ''Source A'',
       opt_limit = Some 1, opt_offset = Some 1\<rparr>
     = [testItem ''test-1'' ''u1'' 3600000]
   \<and> getNewsItems queryStore noOptions
     = [testItem ''test-2'' ''u2'' 7200000, testItem ''test-1'' ''u1'' 3600000,
        testItem ''test-3'' ''u3'' 0]
   \<and> mset (getNewsItems queryStore (noOptions\<lparr>opt_endDate := Some 3600000\<rparr>))
     = filter_mset (spec_passes (noOptions\<lparr>opt_endDate := Some 3600000\<rparr>))
         (mset (map_values (newsItems queryStore)))
   \<and> getNewsItems queryStore (noOptions\<lparr>opt_endDate := Some 3600000\<rparr>)
     = [testItem ''test-1'' ''u1'' 3600000, testItem ''test-3'' ''u3'' 0]
   \<and> (- 2 :: int) < 0
   \<and> getNewsItems queryStore (noOptions\<lparr>opt_offset := Some (- 2), opt_limit := None\<rparr>)
     = [testItem ''test-1'' ''u1'' 3600000, testItem ''test-3'' ''u3'' 0]
   \<and> (- 1 :: int) < 0
   \<and> getNewsItems queryStore (noOptions\<lparr>opt_limit := Some (- 1)\<rparr>)
     = [testItem ''test-2'' ''u2'' 7200000, testItem ''test-1'' ''u1'' 3600000]"
  using getNewsItems_query
          [of "\<lparr>opt_category = Some (Category AI_MODELS), opt_startDate = Some 0,
                opt_endDate = Some 7200000, opt_source = Some ''Source A'',
                opt_limit = Some 1, opt_offset = Some 1\<rparr>" queryStore "- 2" "- 1"]
        getNewsItems_query [of "noOptions\<lparr>opt_endDate := Some 3600000\<rparr>" queryStore "- 2" "- 1"]
        getNewsItems_query [of noOptions queryStore "- 2" "- 1"]
  by (simp add: queryStore_items query_eval testItem_def spec_query_def spec_page_def
      spec_passes_def amended_query_def amended_page_def amended_passes_def)

text \<open>
  C8 as stated fails at a limit of 0 and at an empty source string: both are ignored,
  and the query returns every item, where applying the limit, or the source filter,
  leaves none. It fails at a negative offset and a negative limit: \<open>slice\<close> counts them
  from the end, so an offset of -1 returns only the oldest item, where skipping no item
  returns all three, and a limit of -1 returns the two newest, where keeping no item
  returns none.
\<close>

theorem getNewsItems_query_counterexample:
  "getNewsItems queryStore (noOptions\<lparr>opt_limit := Some 0\<rparr>)
     = [testItem ''test-2'' ''u2'' 7200000, testItem ''test-1'' ''u1'' 3600000,
        testItem ''test-3'' ''u3'' 0]
   \<and> getNewsItems queryStore (noOptions\<lparr>opt_source := Some []\<rparr>)
     = [testItem ''test-2'' ''u2'' 7200000, testItem ''test-1'' ''u1'' 3600000,
        testItem ''test-3'' ''u3'' 0]
   \<and> source (testItem ''test-2'' ''u2'' 7200000) \<noteq> []
   \<and> spec_query queryStore (noOptions\<lparr>opt_limit := Some 0\<rparr>) = []
   \<and> spec_query queryStore (noOptions\<lparr>opt_source := Some []\<rparr>) = []
   \<and> getNewsItems queryStore (noOptions\<lparr>opt_offset := Some (- 1)\<rparr>)
     = [testItem ''test-3'' ''u3'' 0]
   \<and> spec_query queryStore (noOptions\<lparr>opt_offset := Some (- 1)\<rparr>)
     = [testItem ''test-2'' ''u2'' 7200000, testItem ''test-1'' ''u1'' 3600000,
        testItem ''test-3'' ''u3'' 0]
   \<and> getNewsItems queryStore (noOptions\<lparr>opt_limit := Some (- 1)\<rparr>)
     = [testItem ''test-2'' ''u2'' 7200000, testItem ''test-1'' ''u1'' 3600000]
   \<and> spec_query queryStore (noOptions\<lparr>opt_limit := Some (- 1)\<rparr>) = []"
  by (simp add: queryStore_items query_eval testItem_def spec_query_def spec_page_def
      spec_passes_def)

text \<open>
  C9. The claim is what \<open>checkDataIntegrity\<close> demands, and saves, batch saves, deletes and
  updates that leave the id alone keep it (\<open>store_invariant_run_ops\<close>). An update whose
  partial item carries another id breaks it: after two saves, updating \<open>test-1\<close> with
  \<open>{id: 'test-2'}\<close> leaves an item with id \<open>test-2\<close> under the key \<open>test-1\<close>, two stored
  items with the same id, and an integrity report with an "ID mismatch" issue.
\<close>

theorem updateNewsItem_breaks_id_invariant:
  "store_invariant (snd (saveNewsItems (utcClock 0) (newStorageService 1000 7)
       [testItem ''test-1'' ''u1'' 0, testItem ''test-2'' ''u2'' 0]))
   \<and> fst (updateNewsItem
        (snd (saveNewsItems (utcClock 0) (newStorageService 1000 7)
           [testItem ''test-1'' ''u1'' 0, testItem ''test-2'' ''u2'' 0]))
        ''test-1'' (noUpdates\<lparr>upd_id := Some ''test-2''\<rparr>))
   \<and> newsItems (snd (updateNewsItem
        (snd (saveNewsItems (utcClock 0) (newStorageService 1000 7)
           [testItem ''test-1'' ''u1'' 0, testItem ''test-2'' ''u2'' 0]))
        ''test-1'' (noUpdates\<lparr>upd_id := Some ''test-2''\<rparr>)))
      = [(''test-1'', testItem ''test-2'' ''u1'' 0), (''test-2'', testItem ''test-2'' ''u2'' 0)]
   \<and> stored_ids (snd (updateNewsItem
        (snd (saveNewsItems (utcClock 0) (newStorageService 1000 7)
           [testItem ''test-1'' ''u1'' 0, testItem ''test-2'' ''u2'' 0]))
        ''test-1'' (noUpdates\<lparr>upd_id := Some ''test-2''\<rparr>)))
      = [''test-2'', ''test-2'']
   \<and> issues (checkDataIntegrity (snd (updateNewsItem
        (snd (saveNewsItems (utcClock 0) (newStorageService 1000 7)
           [testItem ''test-1'' ''u1'' 0, testItem ''test-2'' ''u2'' 0]))
        ''test-1'' (noUpdates\<lparr>upd_id := Some ''test-2''\<rparr>))))
      = [IdMismatch ''test-1'' ''test-2'']
   \<and> \<not> isValid (checkDataIntegrity (snd (updateNewsItem
        (snd (saveNewsItems (utcClock 0) (newStorageService 1000 7)
           [testItem ''test-1'' ''u1'' 0, testItem ''test-2'' ''u2'' 0]))
        ''test-1'' (noUpdates\<lparr>upd_id := Some ''test-2''\<rparr>))))"
  by (simp add: store_eval store_invariant_def updateNewsItem_def noUpdates_def spread_def
      override_def stored_ids_def checkDataIntegrity_def item_issues_def)

text \<open>
  C10. A save of an item that is no duplicate and was published before the cut-off
  returns \<open>true\<close>; the item is in the store once it is inserted, it is gone once
  \<open>cleanupOldItems\<close> has run on that store, and it is not retrievable after the save. There
  is such an input below capacity, where the capacity loop removes nothing and the
  store after the save is the store the cleanup left.
\<close>

theorem saveNewsItem_true_but_absent:
  "(\<not> isDuplicate s n \<and> pubDate n < cutoffDate now s \<longrightarrow>
      fst (saveNewsItem now s n)
      \<and> getNewsItem (s\<lparr>newsItems := map_set (item_id n) n (newsItems s)\<rparr>) (item_id n) = Some n
      \<and> getNewsItem (cleanupOldItems now (s\<lparr>newsItems := map_set (item_id n) n (newsItems s)\<rparr>))
           (item_id n) = None
      \<and> getNewsItem (snd (saveNewsItem now s n)) (item_id n) = None)
   \<and> (\<exists>now s n. \<not> isDuplicate s n \<and> pubDate n < cutoffDate now s
        \<and> int (getItemCount s) < maxItems s
        \<and> fst (saveNewsItem now s n)
        \<and> snd (saveNewsItem now s n)
             = cleanupOldItems now (s\<lparr>newsItems := map_set (item_id n) n (newsItems s)\<rparr>)
        \<and> getNewsItem (s\<lparr>newsItems := map_set (item_id n) n (newsItems s)\<rparr>) (item_id n) = Some n
        \<and> getNewsItem (snd (saveNewsItem now s n)) (item_id n) = None)"
proof (intro conjI; (rule impI)?)
  assume h: "\<not> isDuplicate s n \<and> pubDate n < cutoffDate now s"
  then have nd: "\<not> isDuplicate s n" and old: "pubDate n < cutoffDate now s" by simp_all
  have nk: "item_id n \<notin> fst ` set (newsItems s)" using nd by (simp add: isDuplicate_iff)
  have ins: "map_set (item_id n) n (newsItems s) = newsItems s @ [(item_id n, n)]"
    using nk by (rule map_set_fresh)
  have a: "getNewsItem (s\<lparr>newsItems := map_set (item_id n) n (newsItems s)\<rparr>) (item_id n) = Some n"
    unfolding ins using nk by (simp add: getNewsItem_def map_of_eq_None_iff map_add_Some_iff)
  have "item_id n \<notin> fst ` set (newsItems (cleanupOldItems now
            (s\<lparr>newsItems := map_set (item_id n) n (newsItems s)\<rparr>)))"
    unfolding ins using nk old by (auto simp: set_cleanupOldItems)
  then have b: "getNewsItem (cleanupOldItems now (s\<lparr>newsItems := map_set (item_id n) n (newsItems s)\<rparr>))
           (item_id n) = None"
    by (simp add: getNewsItem_def map_of_eq_None_iff)
  from saveNewsItem_stale[OF nd old] a b
  show "fst (saveNewsItem now s n)
      \<and> getNewsItem (s\<lparr>newsItems := map_set (item_id n) n (newsItems s)\<rparr>) (item_id n) = Some n
      \<and> getNewsItem (cleanupOldItems now (s\<lparr>newsItems := map_set (item_id n) n (newsItems s)\<rparr>))
           (item_id n) = None
      \<and> getNewsItem (snd (saveNewsItem now s n)) (item_id n) = None"
    by simp
next
  let ?now = "utcClock (30 * msPerDay)" and ?s = "newStorageService 1000 7"
  let ?n = "testItem ''test-1'' ''u'' 0"
  have "\<not> isDuplicate ?s ?n \<and> pubDate ?n < cutoffDate ?now ?s
        \<and> int (getItemCount ?s) < maxItems ?s
        \<and> fst (saveNewsItem ?now ?s ?n)
        \<and> snd (saveNewsItem ?now ?s ?n)
             = cleanupOldItems ?now (?s\<lparr>newsItems := map_set (item_id ?n) ?n (newsItems ?s)\<rparr>)
        \<and> getNewsItem (?s\<lparr>newsItems := map_set (item_id ?n) ?n (newsItems ?s)\<rparr>) (item_id ?n) = Some ?n
        \<and> getNewsItem (snd (saveNewsItem ?now ?s ?n)) (item_id ?n) = None"
    by (simp add: store_eval)
  then show "\<exists>now s n. \<not> isDuplicate s n \<and> pubDate n < cutoffDate now s
        \<and> int (getItemCount s) < maxItems s
        \<and> fst (saveNewsItem now s n)
        \<and> snd (saveNewsItem now s n)
             = cleanupOldItems now (s\<lparr>newsItems := map_set (item_id n) n (newsItems s)\<rparr>)
        \<and> getNewsItem (s\<lparr>newsItems := map_set (item_id n) n (newsItems s)\<rparr>) (item_id n) = Some n
        \<and> getNewsItem (snd (saveNewsItem now s n)) (item_id n) = None"
    by blast
qed

text \<open>
  An empty store (1000, 7), the clock at day 30, an item published at time 0.
\<close>

theorem saveNewsItem_true_but_absent_witness:
  "\<not> isDuplicate (newStorageService 1000 7) (testItem ''test-1'' ''u'' 0)
   \<and> pubDate (testItem ''test-1'' ''u'' 0) < cutoffDate (utcClock (30 * msPerDay)) (newStorageService 1000 7)
   \<and> fst (saveNewsItem (utcClock (30 * msPerDay)) (newStorageService 1000 7) (testItem ''test-1'' ''u'' 0))
   \<and> getNewsItem ((newStorageService 1000 7)\<lparr>newsItems :=
         map_set ''test-1'' (testItem ''test-1'' ''u'' 0) (newsItems (newStorageService 1000 7))\<rparr>)
        ''test-1'' = Some (testItem ''test-1'' ''u'' 0)
   \<and> getNewsItem (cleanupOldItems (utcClock (30 * msPerDay)) ((newStorageService 1000 7)\<lparr>newsItems :=
         map_set ''test-1'' (testItem ''test-1'' ''u'' 0) (newsItems (newStorageService 1000 7))\<rparr>))
        ''test-1'' = None
   \<and> getNewsItem (snd (saveNewsItem (utcClock (30 * msPerDay)) (newStorageService 1000 7)
         (testItem ''test-1'' ''u'' 0))) ''test-1'' = None"
  using saveNewsItem_true_but_absent
          [of "newStorageService 1000 7" "testItem ''test-1'' ''u'' 0" "utcClock (30 * msPerDay)"]
  by (simp add: store_eval)

section \<open>Facts about the classifier\<close>

lemma all_categories_UNIV: "set all_categories = UNIV"
proof -
  have "c \<in> set all_categories" for c
    by (cases c) (simp_all add: all_categories_def)
  then show ?thesis by auto
qed

lemma dictionary_keys: "map fst keywordDictionary = all_categories"
  by (simp add: keywordDictionary_def all_categories_def)

lemma dictionary_distinct: "distinct (map fst keywordDictionary)"
  by (simp add: dictionary_keys all_categories_def)

text \<open>
  Every keyword is non-empty and, in lower case, free of the characters that are special
  in a regular expression.
\<close>

lemma keywords_literal:
  "list_all (\<lambda>entry. list_all (\<lambda>keyword. keyword \<noteq> [] \<and>
       list_all (\<lambda>c. c \<notin> set regexp_special) (toLowerCase_ascii keyword)) (snd entry))
     keywordDictionary"
  by (simp add: keywordDictionary_def regexp_special_def toLowerCase_ascii_def ascii_def)

text \<open>
  The matches that the global regular expression finds are counted as the substring
  count counts: \<open>count_matches\<close>, the model of \<open>match\<close>, and \<open>substring_count\<close>, the
  count of the specification, agree on every pattern and text.
\<close>

lemma regexp_exec_end: "length t < i \<Longrightarrow> regexp_exec p t i = None"
  by (subst regexp_exec.simps) simp

lemma regexp_exec_match:
  "i \<le> length t \<Longrightarrow> take (length p) (drop i t) = p \<Longrightarrow> regexp_exec p t i = Some i"
  by (subst regexp_exec.simps) simp

lemma regexp_exec_skip:
  "i \<le> length t \<Longrightarrow> take (length p) (drop i t) \<noteq> p \<Longrightarrow>
   regexp_exec p t i = regexp_exec p t (Suc i)"
  by (subst regexp_exec.simps) simp

lemma regexp_exec_short: "length t - i < length p \<Longrightarrow> regexp_exec p t i = None"
proof (induction p t i rule: regexp_exec.induct)
  case (1 p t i)
  show ?case
  proof (cases "length t < i")
    case True
    then show ?thesis by (rule regexp_exec_end)
  next
    case False
    then have le: "i \<le> length t" by simp
    have "length (take (length p) (drop i t)) < length p" using "1.prems" by simp
    then have nomatch: "take (length p) (drop i t) \<noteq> p" by auto
    have "regexp_exec p t (i + 1) = None"
      using "1.IH"[OF False nomatch] "1.prems" by simp
    then show ?thesis using regexp_exec_skip[OF le nomatch] by simp
  qed
qed

lemma match_loop_None: "regexp_exec p t i = None \<Longrightarrow> match_loop p t i = []"
  by (subst match_loop.simps) simp

lemma match_loop_Some:
  "regexp_exec p t i = Some k \<Longrightarrow>
   match_loop p t i = k # match_loop p t (if p = [] then k + 1 else k + length p)"
  by (subst match_loop.simps) simp

lemma match_loop_skip:
  "regexp_exec p t i = regexp_exec p t j \<Longrightarrow> match_loop p t i = match_loop p t j"
  by (subst match_loop.simps, subst (2) match_loop.simps) simp

lemma match_loop_empty_pattern: "length (match_loop [] t i) = length t + 1 - i"
proof (induction "length t + 1 - i" arbitrary: i)
  case 0
  then have "length t < i" by simp
  then have "regexp_exec [] t i = None" by (rule regexp_exec_end)
  then have "match_loop [] t i = []" by (rule match_loop_None)
  with 0 show ?case by simp
next
  case (Suc n)
  then have le: "i \<le> length t" by simp
  have "regexp_exec [] t i = Some i" using le by (intro regexp_exec_match) simp_all
  then have "match_loop [] t i = i # match_loop [] t (i + 1)"
    using match_loop_Some[of "[]" t i i] by simp
  moreover have "length (match_loop [] t (i + 1)) = length t + 1 - (i + 1)"
    using Suc by (intro Suc.hyps(1)) simp
  ultimately show ?case using le by simp
qed

lemma match_loop_count:
  "p \<noteq> [] \<Longrightarrow> i \<le> length t \<Longrightarrow> length (match_loop p t i) = substring_count p (drop i t)"
proof (induction "length t - i" arbitrary: i rule: less_induct)
  case less
  let ?r = "drop i t"
  show ?case
  proof (cases "length ?r < length p")
    case True
    then have "regexp_exec p t i = None" by (intro regexp_exec_short) simp
    then have "match_loop p t i = []" by (rule match_loop_None)
    moreover have "substring_count p ?r = 0"
      using True less.prems(1) by (subst substring_count.simps) simp
    ultimately show ?thesis by simp
  next
    case False
    then have room: "i + length p \<le> length t" using less.prems(2) by simp
    have plen: "0 < length p" using less.prems(1) by simp
    show ?thesis
    proof (cases "take (length p) ?r = p")
      case True
      have "regexp_exec p t i = Some i" using less.prems(2) True by (rule regexp_exec_match)
      then have m: "match_loop p t i = i # match_loop p t (i + length p)"
        using match_loop_Some[of p t i i] less.prems(1) by simp
      have "length (match_loop p t (i + length p)) = substring_count p (drop (i + length p) t)"
      proof (rule less.hyps)
        show "length t - (i + length p) < length t - i" using room plen by linarith
        show "p \<noteq> []" by (rule less.prems(1))
        show "i + length p \<le> length t" by (rule room)
      qed
      moreover have "substring_count p ?r = 1 + substring_count p (drop (length p) ?r)"
        using True False less.prems(1) by (subst substring_count.simps) simp
      ultimately show ?thesis by (simp add: m add.commute)
    next
      case nomatch: False
      have "regexp_exec p t i = regexp_exec p t (Suc i)"
        using less.prems(2) nomatch by (rule regexp_exec_skip)
      then have m: "match_loop p t i = match_loop p t (Suc i)" by (rule match_loop_skip)
      have "length (match_loop p t (Suc i)) = substring_count p (drop (Suc i) t)"
      proof (rule less.hyps)
        show "length t - Suc i < length t - i" using room plen by linarith
        show "p \<noteq> []" by (rule less.prems(1))
        show "Suc i \<le> length t" using room plen by linarith
      qed
      moreover have "substring_count p ?r = substring_count p (tl ?r)"
        using nomatch False less.prems(1) by (subst substring_count.simps) simp
      moreover have "tl ?r = drop (Suc i) t" by (simp add: drop_Suc tl_drop)
      ultimately show ?thesis by (simp add: m)
    qed
  qed
qed

lemma count_matches_eq: "count_matches p t = substring_count p t"
proof (cases "p = []")
  case True
  have "substring_count [] t = length t + 1" by (subst substring_count.simps) simp
  with True show ?thesis by (simp add: count_matches_def match_loop_empty_pattern)
next
  case False
  then show ?thesis using match_loop_count[of p 0 t] by (simp add: count_matches_def)
qed

lemma substring_count_Nil: "substring_count (p # ps) [] = 0"
  by (subst substring_count.simps) simp

lemma substring_count_Cons:
  "substring_count (p # ps) (c # cs) =
     (if length (c # cs) < length (p # ps) then 0
      else if take (length (p # ps)) (c # cs) = p # ps
        then 1 + substring_count (p # ps) (drop (length (p # ps)) (c # cs))
        else substring_count (p # ps) cs)"
  by (subst substring_count.simps) simp

lemmas substring_count_code = substring_count_Nil substring_count_Cons

lemma getKeywordWeight_spec: "getKeywordWeight keyword = spec_weight keyword"
  by (simp add: getKeywordWeight_def spec_weight_def)

lemma keyword_loop_sum:
  "keyword_loop text kws acc =
     acc + (\<Sum>keyword \<leftarrow> kws.
              real (substring_count (toLowerCase_ascii keyword) text) * spec_weight keyword)"
  by (induction kws arbitrary: acc) (simp_all add: Let_def getKeywordWeight_spec count_matches_eq)

lemma map_set_middle:
  "k \<notin> fst ` set pre \<Longrightarrow> map_set k v (pre @ (k, w) # rest) = pre @ (k, v) # rest"
  by (induction pre) auto

lemma init_scores_append:
  "distinct (map fst scores @ map fst entries) \<Longrightarrow>
   init_scores entries scores = scores @ map (\<lambda>entry. (fst entry, 0)) entries"
proof (induction entries arbitrary: scores)
  case Nil
  then show ?case by simp
next
  case (Cons e es)
  have fresh: "fst e \<notin> fst ` set scores" using Cons.prems by auto
  have "distinct (map fst (scores @ [(fst e, 0)]) @ map fst es)"
    using Cons.prems by auto
  then have "init_scores es (scores @ [(fst e, 0)])
               = (scores @ [(fst e, 0)]) @ map (\<lambda>entry. (fst entry, 0)) es"
    by (rule Cons.IH)
  then show ?case by (simp add: map_set_fresh[OF fresh])
qed

lemma score_loop_append:
  "distinct (map fst pre @ map fst entries) \<Longrightarrow>
   score_loop text entries (pre @ map (\<lambda>entry. (fst entry, 0)) entries)
     = pre @ map (\<lambda>entry. (fst entry, keyword_loop text (snd entry) 0)) entries"
proof (induction entries arbitrary: pre)
  case Nil
  then show ?case by simp
next
  case (Cons e es)
  have fresh: "fst e \<notin> fst ` set pre" using Cons.prems by auto
  let ?v = "keyword_loop text (snd e) 0"
  have step: "map_set (fst e) ?v (pre @ (fst e, 0) # map (\<lambda>entry. (fst entry, 0)) es)
               = pre @ (fst e, ?v) # map (\<lambda>entry. (fst entry, 0)) es"
    using fresh by (rule map_set_middle)
  have "distinct (map fst (pre @ [(fst e, ?v)]) @ map fst es)"
    using Cons.prems by auto
  then have "score_loop text es ((pre @ [(fst e, ?v)]) @ map (\<lambda>entry. (fst entry, 0)) es)
               = (pre @ [(fst e, ?v)]) @ map (\<lambda>entry. (fst entry, keyword_loop text (snd entry) 0)) es"
    by (rule Cons.IH)
  then show ?case by (simp add: step del: keyword_loop.simps)
qed

lemma getKeywordMatches_map:
  "getKeywordMatches text =
     map (\<lambda>entry. (fst entry, keyword_loop text (snd entry) 0)) keywordDictionary"
proof -
  have d: "distinct (map fst ([] :: (AICategory \<times> real) list) @ map fst keywordDictionary)"
    using dictionary_distinct by simp
  have "init_scores keywordDictionary [] = [] @ map (\<lambda>entry. (fst entry, 0)) keywordDictionary"
    using d by (rule init_scores_append)
  moreover have "score_loop text keywordDictionary ([] @ map (\<lambda>entry. (fst entry, 0)) keywordDictionary)
      = [] @ map (\<lambda>entry. (fst entry, keyword_loop text (snd entry) 0)) keywordDictionary"
    using d by (rule score_loop_append)
  ultimately show ?thesis by (simp add: getKeywordMatches_def)
qed

lemma map_of_map_entries:
  "map_of (map (\<lambda>entry. (fst entry, f entry)) entries) c
     = map_option (\<lambda>keywords. f (c, keywords)) (map_of entries c)"
  by (induction entries) auto

lemma getKeywordsForCategory_Some:
  "map_of keywordDictionary c = Some (getKeywordsForCategory c)"
proof -
  have "c \<in> fst ` set keywordDictionary"
    using dictionary_keys all_categories_UNIV by (metis UNIV_I set_map)
  then obtain kws where "map_of keywordDictionary c = Some kws"
    by (metis map_of_eq_None_iff not_Some_eq)
  then show ?thesis by (simp add: getKeywordsForCategory_def)
qed

lemma getKeywordMatches_score:
  "map_of (getKeywordMatches text) c = Some (spec_score c text)"
  by (simp add: getKeywordMatches_map map_of_map_entries getKeywordsForCategory_Some
      keyword_loop_sum spec_score_def del: keyword_loop.simps)

lemma getKeywordMatches_scores:
  "getKeywordMatches text = map (\<lambda>c. (c, spec_score c text)) all_categories"
proof -
  have "\<And>entry. entry \<in> set keywordDictionary \<Longrightarrow>
          keyword_loop text (snd entry) 0 = spec_score (fst entry) text"
  proof -
    fix entry assume "entry \<in> set keywordDictionary"
    then have "map_of keywordDictionary (fst entry) = Some (snd entry)"
      using dictionary_distinct by simp
    then have "getKeywordsForCategory (fst entry) = snd entry"
      by (simp add: getKeywordsForCategory_def)
    then show "keyword_loop text (snd entry) 0 = spec_score (fst entry) text"
      by (simp add: keyword_loop_sum spec_score_def)
  qed
  then have "getKeywordMatches text
      = map (\<lambda>entry. (fst entry, spec_score (fst entry) text)) keywordDictionary"
    by (simp add: getKeywordMatches_map del: keyword_loop.simps)
  also have "\<dots> = map (\<lambda>c. (c, spec_score c text)) (map fst keywordDictionary)"
    by (simp add: comp_def)
  finally show ?thesis by (simp add: dictionary_keys)
qed

lemma spec_score_nonneg: "0 \<le> spec_score c text"
  unfolding spec_score_def
  by (rule sum_list_nonneg) (auto simp: spec_weight_def)


lemma substring_count_absent:
  "p \<noteq> [] \<Longrightarrow> \<not> js_includes t p \<Longrightarrow> substring_count p t = 0"
proof (induction p t rule: substring_count.induct)
  case (1 p t)
  show ?case
  proof (cases "length t < length p")
    case True
    with "1.prems" show ?thesis by (subst substring_count.simps) simp
  next
    case False
    then have ne: "t \<noteq> []" using "1.prems" by auto
    then obtain c cs where t: "t = c # cs" by (cases t) auto
    have nomatch: "take (length p) t \<noteq> p"
      using "1.prems"(2) t by auto
    have "\<not> js_includes (tl t) p" using "1.prems"(2) t by auto
    then have "substring_count p (tl t) = 0"
      using "1.IH"(2)[OF "1.prems"(1) False nomatch "1.prems"(1)] by simp
    then show ?thesis using "1.prems"(1) False nomatch
      by (subst substring_count.simps) simp
  qed
qed

lemma keyword_of_category:
  assumes "keyword \<in> set (getKeywordsForCategory c)"
  shows "\<exists>entry \<in> set keywordDictionary. keyword \<in> set (snd entry)"
proof -
  have "map_of keywordDictionary c = Some (getKeywordsForCategory c)"
    by (rule getKeywordsForCategory_Some)
  then have "(c, getKeywordsForCategory c) \<in> set keywordDictionary"
    by (rule map_of_SomeD)
  with assms show ?thesis by force
qed

lemma no_keyword_score: "contains_no_keyword text \<Longrightarrow> spec_score c text = 0"
proof -
  assume none: "contains_no_keyword text"
  have "real (substring_count (toLowerCase_ascii keyword) text) * spec_weight keyword = 0"
    if "keyword \<in> set (getKeywordsForCategory c)" for keyword
  proof -
    from that obtain entry where e: "entry \<in> set keywordDictionary" "keyword \<in> set (snd entry)"
      using keyword_of_category by blast
    have "keyword \<noteq> []" using keywords_literal e by (auto simp: list_all_iff)
    then have "toLowerCase_ascii keyword \<noteq> []" by (simp add: toLowerCase_ascii_def)
    moreover have "\<not> js_includes text (toLowerCase_ascii keyword)"
      using none e by (auto simp: contains_no_keyword_def list_all_iff)
    ultimately show ?thesis by (simp add: substring_count_absent)
  qed
  then have eq: "map (\<lambda>keyword. real (substring_count (toLowerCase_ascii keyword) text) * spec_weight keyword)
               (getKeywordsForCategory c)
             = map (\<lambda>keyword. 0) (getKeywordsForCategory c)"
    by (intro map_cong) simp_all
  show ?thesis unfolding spec_score_def eq by simp
qed

lemma best_loop_cases:
  "best_loop lower text xs (c0, b0, m0) = (c, b, m) \<Longrightarrow>
     ((\<forall>e \<in> set xs. snd e \<le> b0) \<and> (c, b, m) = (c0, b0, m0))
     \<or> (\<exists>pre post. xs = pre @ (c, b) # post \<and> b0 < b
            \<and> (\<forall>e \<in> set pre. snd e < b) \<and> (\<forall>e \<in> set post. snd e \<le> b)
            \<and> m = getMatchedKeywordsForCategory lower text c)"
proof (induction xs arbitrary: c0 b0 m0)
  case Nil
  then show ?case by simp
next
  case (Cons e es)
  show ?case
  proof (cases "snd e > b0")
    case True
    then have "best_loop lower text es (fst e, snd e, getMatchedKeywordsForCategory lower text (fst e)) = (c, b, m)"
      using Cons.prems by simp
    from Cons.IH[OF this] show ?thesis
    proof
      assume "(\<forall>x \<in> set es. snd x \<le> snd e)
                \<and> (c, b, m) = (fst e, snd e, getMatchedKeywordsForCategory lower text (fst e))"
      then have "e # es = [] @ (c, b) # es \<and> b0 < b \<and> (\<forall>x \<in> set es. snd x \<le> b)
                   \<and> m = getMatchedKeywordsForCategory lower text c"
        using True by auto
      then show ?thesis by (metis empty_iff list.set(1))
    next
      assume "\<exists>pre post. es = pre @ (c, b) # post \<and> snd e < b
            \<and> (\<forall>x \<in> set pre. snd x < b) \<and> (\<forall>x \<in> set post. snd x \<le> b)
            \<and> m = getMatchedKeywordsForCategory lower text c"
      then obtain pre post where p: "es = pre @ (c, b) # post" "snd e < b"
            "\<forall>x \<in> set pre. snd x < b" "\<forall>x \<in> set post. snd x \<le> b"
            "m = getMatchedKeywordsForCategory lower text c"
        by blast
      have "e # es = (e # pre) @ (c, b) # post \<and> b0 < b \<and> (\<forall>x \<in> set (e # pre). snd x < b)"
        using p True by auto
      with p show ?thesis by blast
    qed
  next
    case False
    then have "best_loop lower text es (c0, b0, m0) = (c, b, m)"
      using Cons.prems by simp
    from Cons.IH[OF this] show ?thesis
    proof
      assume "(\<forall>x \<in> set es. snd x \<le> b0) \<and> (c, b, m) = (c0, b0, m0)"
      then show ?thesis using False by auto
    next
      assume "\<exists>pre post. es = pre @ (c, b) # post \<and> b0 < b
            \<and> (\<forall>x \<in> set pre. snd x < b) \<and> (\<forall>x \<in> set post. snd x \<le> b)
            \<and> m = getMatchedKeywordsForCategory lower text c"
      then obtain pre post where p: "es = pre @ (c, b) # post" "b0 < b"
            "\<forall>x \<in> set pre. snd x < b" "\<forall>x \<in> set post. snd x \<le> b"
            "m = getMatchedKeywordsForCategory lower text c"
        by blast
      have "e # es = (e # pre) @ (c, b) # post \<and> (\<forall>x \<in> set (e # pre). snd x < b)"
        using p False by auto
      with p show ?thesis by blast
    qed
  qed
qed

text \<open>Facts about the rounding of the two divisions.\<close>

lemma to_double_0: "to_double 0 = 0"
  by (simp add: to_double_def)

lemma fdiv_0: "fdiv 0 y = 0"
  by (simp add: fdiv_def to_double_0)

lemma round_half_even_of_int: "round_half_even (of_int m) = m"
  by (simp add: round_half_even_def)

lemma round_half_even_le: "q \<le> of_int m \<Longrightarrow> round_half_even q \<le> m"
proof -
  assume h: "q \<le> of_int m"
  have f: "\<lfloor>q\<rfloor> \<le> m" using h by (simp add: floor_le_iff)
  show ?thesis
  proof (cases "q - of_int \<lfloor>q\<rfloor> < 1 / 2")
    case True
    then show ?thesis using f by (simp add: round_half_even_def Let_def)
  next
    case False
    then have "of_int \<lfloor>q\<rfloor> < q" by linarith
    then have "of_int \<lfloor>q\<rfloor> < (of_int m :: real)" using h by linarith
    then have "\<lfloor>q\<rfloor> < m" by simp
    then have "\<lfloor>q\<rfloor> + 1 \<le> m" by simp
    then show ?thesis using f by (simp add: round_half_even_def Let_def)
  qed
qed

lemma round_half_even_nonneg: "0 \<le> q \<Longrightarrow> 0 \<le> round_half_even q"
proof -
  assume "0 \<le> q"
  then have "0 \<le> \<lfloor>q\<rfloor>" by simp
  then show ?thesis by (simp add: round_half_even_def Let_def)
qed

lemma floor_log2_eq:
  assumes "0 < x" and "2 powr of_int e \<le> x" and "x < 2 powr of_int (e + 1)"
  shows "\<lfloor>log 2 x\<rfloor> = e"
proof (rule floor_unique)
  show "of_int e \<le> log 2 x"
    using assms(1,2) by (simp add: le_log_iff)
  show "log 2 x < of_int e + 1"
    using assms(1,3) by (simp add: log_less_iff add.commute)
qed

text \<open>The rounding of a number whose binary exponent is known.\<close>

lemma to_double_exponent:
  assumes "0 < x" and "2 powr of_int e \<le> x" and "x < 2 powr of_int (e + 1)" and "- 1022 \<le> e"
  shows "to_double x = of_int (round_half_even (x / 2 powr of_int (e - 52))) * 2 powr of_int (e - 52)"
proof -
  have "\<lfloor>log 2 \<bar>x\<bar>\<rfloor> = e" using assms(1-3) by (simp add: floor_log2_eq)
  then show ?thesis using assms(1,4) by (simp add: to_double_def Let_def max_def)
qed

lemma to_double_nonneg: "0 \<le> x \<Longrightarrow> 0 \<le> to_double x"
proof (cases "x = 0")
  case True then show ?thesis by (simp add: to_double_0)
next
  case False
  assume "0 \<le> x"
  with False have pos: "0 < x" by simp
  let ?ulp = "2 powr of_int (max \<lfloor>log 2 \<bar>x\<bar>\<rfloor> (- 1022) - 52) :: real"
  have "0 \<le> x / ?ulp" using pos by simp
  then have "0 \<le> round_half_even (x / ?ulp)" by (rule round_half_even_nonneg)
  then show ?thesis using pos by (simp add: to_double_def Let_def)
qed

lemma to_double_le_1:
  assumes "0 \<le> x" and "x \<le> 1"
  shows "to_double x \<le> 1"
proof (cases "x = 0")
  case True then show ?thesis by (simp add: to_double_0)
next
  case False
  with assms have pos: "0 < x" by simp
  define e where "e = max \<lfloor>log 2 \<bar>x\<bar>\<rfloor> (- 1022)"
  have "log 2 x \<le> 0" using pos assms(2) by simp
  then have "\<lfloor>log 2 \<bar>x\<bar>\<rfloor> \<le> 0" using pos by (simp add: floor_le_iff)
  then have e0: "e \<le> 0" by (simp add: e_def)
  let ?ulp = "2 powr of_int (e - 52) :: real"
  have ulp_pos: "0 < ?ulp" by simp
  have inv: "1 / ?ulp = of_int (2 ^ nat (52 - e))"
  proof -
    have "?ulp * 2 powr of_int (52 - e) = 1" by (simp add: powr_add[symmetric])
    then have "1 / ?ulp = 2 powr of_int (52 - e)" using ulp_pos by (simp add: field_simps)
    also have "\<dots> = 2 powr real (nat (52 - e))" using e0 by simp
    also have "\<dots> = 2 ^ nat (52 - e)" by (simp add: powr_realpow)
    finally show ?thesis by simp
  qed
  have "x / ?ulp \<le> 1 / ?ulp" using assms(2) ulp_pos by (simp add: divide_right_mono)
  then have "x / ?ulp \<le> of_int (2 ^ nat (52 - e))" using inv by simp
  then have "round_half_even (x / ?ulp) \<le> 2 ^ nat (52 - e)" by (rule round_half_even_le)
  then have "of_int (round_half_even (x / ?ulp)) \<le> (of_int (2 ^ nat (52 - e)) :: real)"
    by (simp only: of_int_le_iff)
  then have "of_int (round_half_even (x / ?ulp)) \<le> 1 / ?ulp" using inv by simp
  then have "of_int (round_half_even (x / ?ulp)) * ?ulp \<le> 1"
    using ulp_pos by (simp add: pos_le_divide_eq)
  then show ?thesis using pos by (simp add: to_double_def Let_def e_def)
qed

lemma to_double_1: "to_double 1 = 1"
proof -
  have "to_double 1 = of_int (round_half_even (1 / 2 powr of_int (0 - 52))) * 2 powr of_int (0 - 52)"
    by (rule to_double_exponent) simp_all
  also have "1 / 2 powr of_int (0 - 52) = (of_int (2 ^ 52) :: real)"
    by (simp add: powr_minus field_simps)
  finally show ?thesis
    by (simp only: round_half_even_of_int) (simp add: powr_minus)
qed

text \<open>
  The quotient of 7 by the quotient of 896 by 100: the double 0.7812499999999999, one
  unit in the last place below 25/32.
\<close>

lemma fdiv_896_100: "fdiv 896 100 = 5044031582654956 / 2 ^ 49"
proof -
  have "to_double (896 / 100)
          = of_int (round_half_even ((896 / 100) / 2 powr of_int (3 - 52))) * 2 powr of_int (3 - 52)"
    by (rule to_double_exponent) simp_all
  moreover have "(896 / 100) / 2 powr of_int (3 - 52) = (126100789566373888 / 25 :: real)"
    by (simp add: powr_minus)
  moreover have "round_half_even (126100789566373888 / 25) = 5044031582654956"
    by (simp add: round_half_even_def Let_def)
  ultimately show ?thesis by (simp add: fdiv_def powr_minus)
qed

lemma fdiv_7_896: "fdiv 7 (fdiv 896 100) = 7036874417766399 / 2 ^ 53"
proof -
  define x :: real where "x = 3940649673949184 / 5044031582654956"
  have a: "fdiv 7 (fdiv 896 100) = to_double x"
    unfolding fdiv_896_100 by (simp add: fdiv_def x_def)
  have b: "to_double x
          = of_int (round_half_even (x / 2 powr of_int (- 1 - 52))) * 2 powr of_int (- 1 - 52)"
    by (rule to_double_exponent) (simp_all add: x_def powr_minus)
  have c: "round_half_even (x / 2 powr of_int (- 1 - 52)) = 7036874417766399"
    by (simp add: x_def round_half_even_def Let_def powr_minus)
  show ?thesis unfolding a b c by (simp add: powr_minus)
qed

lemma fdiv_7_896_inexact: "fdiv 7 (fdiv 896 100) \<noteq> 7 / (896 / 100)"
  by (simp add: fdiv_7_896)


lemma spec_confidence_zero: "spec_confidence 0 n = 0"
  by (simp add: spec_confidence_def fdiv_0)

lemma spec_confidence_short:
  assumes "n \<le> 100"
  shows "spec_confidence b n = min (to_double b) 1"
proof -
  have "to_double (real n / 100) \<le> 1"
    using assms by (intro to_double_le_1) simp_all
  then have "max (fdiv (real n) 100) 1 = 1" by (simp add: fdiv_def)
  then show ?thesis by (simp add: spec_confidence_def fdiv_def)
qed


lemma analyzeContent_unfold:
  "analyzeContent lower st t d =
     (case best_loop lower (combinedText lower t d) (getKeywordMatches (combinedText lower t d))
             (defaultCategory st, 0, []) of
        (c, b, m) \<Rightarrow>
          \<lparr>res_category = c,
           confidence = spec_confidence b (length (combinedText lower t d)),
           matchedKeywords = m\<rparr>)"
  by (simp add: analyzeContent_def Let_def spec_confidence_def split_beta)

lemma analyzeContent_best:
  fixes lower :: case_folding and st :: ClassificationService and t d :: jsstring
  defines "txt \<equiv> combinedText lower t d"
  defines "best \<equiv> Max ((\<lambda>c. spec_score c txt) ` set all_categories)"
  defines "r \<equiv> analyzeContent lower st t d"
  shows "confidence r = spec_confidence best (length txt)
     \<and> (\<forall>c. spec_score c txt \<le> best)
     \<and> ((\<forall>c. spec_score c txt = 0) \<longrightarrow> res_category r = defaultCategory st \<and> confidence r = 0)
     \<and> ((\<exists>c. 0 < spec_score c txt) \<longrightarrow>
           spec_score (res_category r) txt = best
           \<and> (\<exists>pre post. all_categories = pre @ res_category r # post
                  \<and> (\<forall>c \<in> set pre. spec_score c txt < best)))"
proof -
  let ?xs = "map (\<lambda>c. (c, spec_score c txt)) all_categories"
  obtain c b m where bl: "best_loop lower txt ?xs (defaultCategory st, 0, []) = (c, b, m)"
    by (metis prod_cases3)
  have r: "r = \<lparr>res_category = c, confidence = spec_confidence b (length txt), matchedKeywords = m\<rparr>"
    using bl by (simp add: r_def analyzeContent_unfold txt_def getKeywordMatches_scores)
  have fin: "finite ((\<lambda>c. spec_score c txt) ` set all_categories)" by simp
  have mem: "spec_score x txt \<in> (\<lambda>c. spec_score c txt) ` set all_categories" for x
    by (simp add: all_categories_UNIV)
  have le_best: "spec_score x txt \<le> best" for x
    unfolding best_def using fin mem by (rule Max_ge)
  from best_loop_cases[OF bl]
  consider (none) "\<forall>e \<in> set ?xs. snd e \<le> 0" "(c, b, m) = (defaultCategory st, 0, [])"
    | (some) pre post where "?xs = pre @ (c, b) # post" "0 < b"
        "\<forall>e \<in> set pre. snd e < b" "\<forall>e \<in> set post. snd e \<le> b"
    by blast
  then show ?thesis
  proof cases
    case none
    have zero: "spec_score x txt = 0" for x
    proof -
      have "(x, spec_score x txt) \<in> set ?xs" by (simp add: all_categories_UNIV)
      with none(1) have "spec_score x txt \<le> 0" by fastforce
      moreover have "0 \<le> spec_score x txt" by (rule spec_score_nonneg)
      ultimately show ?thesis by simp
    qed
    have "best = 0"
      unfolding best_def
      by (rule Max_eqI[OF fin]) (auto simp: zero all_categories_def)
    with none(2) zero r show ?thesis
      by (simp add: spec_confidence_zero)
  next
    case some
    have cb: "(c, b) \<in> set ?xs" using some(1) by simp
    then have b: "b = spec_score c txt" by auto
    have all_le: "spec_score x txt \<le> b" for x
    proof -
      have "(x, spec_score x txt) \<in> set (pre @ (c, b) # post)"
        using some(1)[symmetric] by (simp add: all_categories_UNIV)
      then show ?thesis using some(3,4) by fastforce
    qed
    have best: "best = b"
      unfolding best_def
      by (rule Max_eqI[OF fin]) (use all_le b mem in auto)
    have cats: "all_categories = map fst pre @ c # map fst post"
    proof -
      have "map fst ?xs = all_categories" by (simp add: comp_def)
      then show ?thesis using some(1) by simp
    qed
    have pre_lt: "\<forall>x \<in> set (map fst pre). spec_score x txt < b"
    proof
      fix x assume "x \<in> set (map fst pre)"
      then obtain v where xv: "(x, v) \<in> set pre" by auto
      then have "(x, v) \<in> set ?xs" using some(1) by simp
      then have "v = spec_score x txt" by auto
      with xv some(3) show "spec_score x txt < b" by fastforce
    qed
    have nz: "\<not> (\<forall>x. spec_score x txt = 0)"
    proof
      assume "\<forall>x. spec_score x txt = 0"
      then have "spec_score c txt = 0" by blast
      with some(2) b show False by simp
    qed
    have ex: "\<exists>pre' post'. all_categories = pre' @ c # post'
                \<and> (\<forall>x \<in> set pre'. spec_score x txt < best)"
      using cats pre_lt best by blast
    have rc: "res_category r = c" and conf: "confidence r = spec_confidence best (length txt)"
      using r best by simp_all
    have p3: "(\<forall>x. spec_score x txt = 0) \<longrightarrow> res_category r = defaultCategory st \<and> confidence r = 0"
      using nz by blast
    have p4: "(\<exists>x. 0 < spec_score x txt) \<longrightarrow>
           spec_score (res_category r) txt = best
           \<and> (\<exists>pre post. all_categories = pre @ res_category r # post
                  \<and> (\<forall>x \<in> set pre. spec_score x txt < best))"
      using ex b best rc by simp
    from conf le_best p3 p4 show ?thesis by blast
  qed
qed


lemma plainNews_text:
  "combinedText toLowerCase_ascii (title plainNews) (description plainNews) = [104, 105, 32]"
  by (simp add: combinedText_def plainNews_def toLowerCase_ascii_def ascii_def)

lemma plainNews_no_keyword:
  "contains_no_keyword (combinedText toLowerCase_ascii (title plainNews) (description plainNews))"
  unfolding plainNews_text
  by (simp add: contains_no_keyword_def keywordDictionary_def toLowerCase_ascii_def ascii_def)

lemma bashNews_text:
  "combinedText toLowerCase_ascii (title bashNews) (description bashNews) = [98, 97, 115, 104, 32]"
  by (simp add: combinedText_def bashNews_def toLowerCase_ascii_def ascii_def)

lemma bashNews_scores:
  "getKeywordMatches [98, 97, 115, 104, 32] =
     [(AI_MODELS, 0), (AI_ASSISTANT, 0), (AI_AGENT, 0), (AI_IDE, 0), (AI_CLI, 1),
      (AI_SEARCH, 0), (AI_INTEGRATION, 0), (AI_MULTIMODAL, 0), (AI_NOCODE, 0),
      (AI_DATA_ANALYSIS, 0)]"
  unfolding getKeywordMatches_map keyword_loop_sum
  by (simp add: keywordDictionary_def toLowerCase_ascii_def ascii_def substring_count_code spec_weight_def)

lemma bashNews_result:
  "res_category (analyzeContent toLowerCase_ascii newClassificationService (title bashNews) (description bashNews)) = AI_CLI
   \<and> confidence (analyzeContent toLowerCase_ascii newClassificationService (title bashNews) (description bashNews)) = 1"
  unfolding analyzeContent_unfold bashNews_text bashNews_scores
  by (simp add: newClassificationService_def spec_confidence_short to_double_1)


lemma bashNews_cli_score: "spec_score AI_CLI [98, 97, 115, 104, 32] = 1"
  using getKeywordMatches_score[of "[98, 97, 115, 104, 32]" AI_CLI]
  unfolding bashNews_scores by simp

lemma no_keyword_result:
  assumes "contains_no_keyword (combinedText lower t d)"
  shows "res_category (analyzeContent lower st t d) = defaultCategory st
         \<and> confidence (analyzeContent lower st t d) = 0"
  using analyzeContent_best[of lower st t d] no_keyword_score[OF assms] by simp

section \<open>Claims about the classifier\<close>

text \<open>
  C5 (as amended). \<open>classifyNews\<close> returns the category carried on the item when the
  confidence is strictly below the threshold, and the candidate of \<open>analyzeContent\<close>
  otherwise; when some category has a positive score the candidate has the highest
  score. A text in which no keyword occurs has confidence 0 and the classifier's own
  default category as candidate, so it yields the category carried on the item exactly
  when the threshold is positive, as the default 0.1 is.
\<close>

theorem classifyNews_threshold:
  "(confidence (analyzeContent lower st (title n) (description n)) < minConfidenceThreshold st
      \<longrightarrow> classifyNews lower st n = category n)
   \<and> (\<not> confidence (analyzeContent lower st (title n) (description n)) < minConfidenceThreshold st
      \<longrightarrow> classifyNews lower st n = res_category (analyzeContent lower st (title n) (description n)))
   \<and> ((\<exists>c. 0 < spec_score c (combinedText lower (title n) (description n)))
      \<longrightarrow> (\<forall>c. spec_score c (combinedText lower (title n) (description n))
                \<le> spec_score (res_category (analyzeContent lower st (title n) (description n)))
                     (combinedText lower (title n) (description n))))
   \<and> (contains_no_keyword (combinedText lower (title n) (description n))
      \<longrightarrow> confidence (analyzeContent lower st (title n) (description n)) = 0
          \<and> res_category (analyzeContent lower st (title n) (description n)) = defaultCategory st)
   \<and> (contains_no_keyword (combinedText lower (title n) (description n))
        \<and> 0 < minConfidenceThreshold st
      \<longrightarrow> classifyNews lower st n = category n)"
proof (intro conjI; rule impI)
  assume "confidence (analyzeContent lower st (title n) (description n)) < minConfidenceThreshold st"
  then show "classifyNews lower st n = category n" by (simp add: classifyNews_def)
next
  assume "\<not> confidence (analyzeContent lower st (title n) (description n)) < minConfidenceThreshold st"
  then show "classifyNews lower st n = res_category (analyzeContent lower st (title n) (description n))"
    by (simp add: classifyNews_def)
next
  assume "\<exists>c. 0 < spec_score c (combinedText lower (title n) (description n))"
  then show "\<forall>c. spec_score c (combinedText lower (title n) (description n))
                \<le> spec_score (res_category (analyzeContent lower st (title n) (description n)))
                     (combinedText lower (title n) (description n))"
    using analyzeContent_best[of lower st "title n" "description n"] by simp
next
  assume "contains_no_keyword (combinedText lower (title n) (description n))"
  then show "confidence (analyzeContent lower st (title n) (description n)) = 0
          \<and> res_category (analyzeContent lower st (title n) (description n)) = defaultCategory st"
    using no_keyword_result by blast
next
  assume "contains_no_keyword (combinedText lower (title n) (description n))
        \<and> 0 < minConfidenceThreshold st"
  then show "classifyNews lower st n = category n"
    using no_keyword_result[of lower "title n" "description n" st] by (simp add: classifyNews_def)
qed

text \<open>
  The two test items under the default threshold 0.1: no keyword gives the item's
  category, a keyword of the command-line category gives that category. Their texts are
  ASCII, on which \<open>toLowerCase\<close> is \<open>toLowerCase_ascii\<close>.
\<close>

theorem classifyNews_threshold_witness:
  "contains_no_keyword (combinedText toLowerCase_ascii (title plainNews) (description plainNews))
   \<and> 0 < minConfidenceThreshold newClassificationService
   \<and> confidence (analyzeContent toLowerCase_ascii newClassificationService (title plainNews) (description plainNews))
       < minConfidenceThreshold newClassificationService
   \<and> classifyNews toLowerCase_ascii newClassificationService plainNews = AI_DATA_ANALYSIS
   \<and> \<not> confidence (analyzeContent toLowerCase_ascii newClassificationService (title bashNews) (description bashNews))
         < minConfidenceThreshold newClassificationService
   \<and> 0 < spec_score AI_CLI (combinedText toLowerCase_ascii (title bashNews) (description bashNews))
   \<and> category bashNews = AI_MODELS
   \<and> classifyNews toLowerCase_ascii newClassificationService bashNews = AI_CLI"
  using classifyNews_threshold[of toLowerCase_ascii newClassificationService plainNews]
        classifyNews_threshold[of toLowerCase_ascii newClassificationService bashNews]
        plainNews_no_keyword bashNews_result bashNews_cli_score
  by (simp add: bashNews_text) (simp add: newClassificationService_def plainNews_def bashNews_def)

text \<open>
  C5 as stated fails at the threshold 0, which \<open>setConfidenceThreshold\<close> accepts: a text
  without any keyword is classified as the classifier's default category, not as the
  category carried on the item.
\<close>

theorem classifyNews_threshold_counterexample:
  "setConfidenceThreshold newClassificationService 0
     = Inr (newClassificationService\<lparr>minConfidenceThreshold := 0\<rparr>)
   \<and> contains_no_keyword (combinedText toLowerCase_ascii (title plainNews) (description plainNews))
   \<and> category plainNews = AI_DATA_ANALYSIS
   \<and> classifyNews toLowerCase_ascii (newClassificationService\<lparr>minConfidenceThreshold := 0\<rparr>) plainNews = AI_MODELS"
  using no_keyword_result[OF plainNews_no_keyword,
          of "newClassificationService\<lparr>minConfidenceThreshold := 0\<rparr>"]
        plainNews_no_keyword
  by (simp add: setConfidenceThreshold_def classifyNews_def newClassificationService_def
      plainNews_def)

text \<open>
  C6. For every text the score that \<open>getKeywordMatches\<close> gives a category is the sum, over
  the keywords of the category, of the substring count of the lower-cased keyword in
  the text times the weight of the keyword: 3 for a length above 10, 2 for a length
  above 6, else 1. The matches of the global regular expression are what the substring
  count counts, on every pattern and text; an occurrence that overlaps the one before is
  not counted, by either. The confidence of \<open>analyzeContent\<close> is the highest score
  divided by the larger of a hundredth of the text length and 1, capped at 1, where the
  text is the title, a space and the description, folded to lower case by the engine,
  and where the two divisions are those of the source: the quotient rounded to the
  nearest double, as in 7 / (896 / 100), which is 0.7812499999999999.
\<close>

theorem classifier_score_and_confidence:
  "map_of (getKeywordMatches text) c =
     Some (\<Sum>keyword \<leftarrow> getKeywordsForCategory c.
             real (substring_count (toLowerCase_ascii keyword) text)
               * (if length keyword > 10 then 3 else if length keyword > 6 then 2 else 1))
   \<and> getKeywordWeight keyword
       = (if length keyword > 10 then 3 else if length keyword > 6 then 2 else 1)
   \<and> count_matches pattern text = substring_count pattern text
   \<and> count_matches (ascii ''alexa'') (ascii ''alexalexa'') = 1
   \<and> map_of (getKeywordMatches text) c = Some (spec_score c text)
   \<and> confidence (analyzeContent lower st t d)
       = min (fdiv (Max ((\<lambda>c. spec_score c (combinedText lower t d)) ` set all_categories))
                (max (fdiv (real (length (combinedText lower t d))) 100) 1)) 1
   \<and> confidence (analyzeContent lower st t d)
       = spec_confidence (Max ((\<lambda>c. spec_score c (combinedText lower t d)) ` set all_categories))
           (length (combinedText lower t d))
   \<and> combinedText lower t d = lower (t @ [32] @ d)
   \<and> fdiv 7 (fdiv 896 100) = 7036874417766399 / 2 ^ 53"
proof -
  have s: "map_of (getKeywordMatches text) c = Some (spec_score c text)"
    by (rule getKeywordMatches_score)
  have c: "confidence (analyzeContent lower st t d)
       = spec_confidence (Max ((\<lambda>c. spec_score c (combinedText lower t d)) ` set all_categories))
           (length (combinedText lower t d))"
    using analyzeContent_best[of lower st t d] by blast
  have m: "count_matches pattern text = substring_count pattern text"
    by (rule count_matches_eq)
  have a: "count_matches (ascii ''alexa'') (ascii ''alexalexa'') = 1"
    unfolding count_matches_eq by (simp add: ascii_def substring_count_code)
  show ?thesis
    using s c m a fdiv_7_896
    by (simp add: spec_score_def spec_weight_def spec_confidence_def getKeywordWeight_def
        combinedText_def)
qed

section \<open>Facts about the collector\<close>

lemma forEach_results_fst:
  assumes "\<forall>p \<in> set rs. snd p < length sources"
  shows "fst (forEach_results sources rs (allNews, sc, ec))
           = allNews @ concat (map (contribution \<circ> fst) rs)"
  using assms
proof (induction rs arbitrary: allNews sc ec)
  case Nil
  then show ?case by simp
next
  case (Cons p rs)
  obtain result index where p: "p = (result, index)" by (cases p)
  have idx: "index < length sources" using Cons.prems p by simp
  have rest: "\<forall>q \<in> set rs. snd q < length sources" using Cons.prems by simp
  show ?case
  proof (cases result)
    case (Fulfilled v)
    then show ?thesis
      using idx Cons.IH[OF rest, of "allNews @ v" "sc + 1" ec] p
      by (simp add: contribution_def)
  next
    case (Rejected reason)
    then show ?thesis
      using idx Cons.IH[OF rest, of allNews sc "ec + 1"] p
      by (simp add: contribution_def)
  qed
qed

lemma join_settled_concat:
  assumes "length results = length sources"
  shows "join_settled sources results = Fulfilled (concat (map contribution results))"
proof -
  have "\<forall>p \<in> set (zip results [0 ..< length results]). snd p < length sources"
    using assms by (auto dest: set_zip_rightD)
  then have "fst (forEach_results sources (zip results [0 ..< length results]) ([], 0, 0))
               = [] @ concat (map (contribution \<circ> fst) (zip results [0 ..< length results]))"
    by (rule forEach_results_fst)
  moreover have "map (contribution \<circ> fst) (zip results [0 ..< length results])
                   = map contribution results"
    by (simp add: map_fst_zip flip: map_map)
  ultimately show ?thesis by (simp add: join_settled_def)
qed

lemma concat_all_empty: "(\<forall>x \<in> set xs. f x = []) \<Longrightarrow> concat (map f xs) = []"
  by (induction xs) auto

lemma retry_loop_4:
  "retry_loop fetch src 4 e =
     Rejected (''Failed to collect from '' @ src_name src @ '' after 3 attempts. Last error: '' @ e)"
  by (subst retry_loop.simps) (simp add: maxRetries_def)

lemma retry_loop_3:
  "retry_loop fetch src 3 e =
     (case fetch src 3 of Fulfilled items \<Rightarrow> Fulfilled items
      | Rejected m3 \<Rightarrow> retry_loop fetch src 4 m3)"
  by (subst retry_loop.simps) (simp add: maxRetries_def split: settled.splits)

lemma retry_loop_2:
  "retry_loop fetch src 2 e =
     (case fetch src 2 of Fulfilled items \<Rightarrow> Fulfilled items
      | Rejected m2 \<Rightarrow> retry_loop fetch src 3 m2)"
  by (subst retry_loop.simps) (simp add: maxRetries_def split: settled.splits)

lemma retry_loop_1:
  "retry_loop fetch src 1 e =
     (case fetch src 1 of Fulfilled items \<Rightarrow> Fulfilled items
      | Rejected m1 \<Rightarrow> retry_loop fetch src 2 m1)"
  by (subst retry_loop.simps) (simp add: maxRetries_def numeral_2_eq_2 split: settled.splits)

lemma collectFromSourceWithRetry_cases:
  "collectFromSourceWithRetry fetch src =
     (case fetch src 1 of Fulfilled items \<Rightarrow> Fulfilled items
      | Rejected m1 \<Rightarrow>
        (case fetch src 2 of Fulfilled items \<Rightarrow> Fulfilled items
         | Rejected m2 \<Rightarrow>
           (case fetch src 3 of Fulfilled items \<Rightarrow> Fulfilled items
            | Rejected m3 \<Rightarrow>
                Rejected (''Failed to collect from '' @ src_name src
                            @ '' after 3 attempts. Last error: '' @ m3))))"
  unfolding collectFromSourceWithRetry_def retry_loop_1 retry_loop_2 retry_loop_3 retry_loop_4
  by (rule refl)

lemmas collector_eval =
  collectFromSourceWithRetry_cases testSources_def testFeeds_def failingFeeds_def
  is_rejected_def contribution_def

section \<open>Claims about the collector\<close>

text \<open>
  C7. For every list of sources and every way their fetches settle,
  \<open>collectFromAllSources\<close> fulfils (it never rejects) with the concatenation, in the order
  of the sources, of the record lists of the sources that succeeded; the same holds of
  the join for any list of settled results, one per source. A source that failed
  contributes nothing, and when every source fails the result is the empty list.
\<close>

theorem collectFromAllSources_partial_failure:
  "collectFromAllSources fetch sources
     = Fulfilled (concat (map (\<lambda>src. contribution (collectFromSourceWithRetry fetch src)) sources))
   \<and> (length results = length sources
        \<longrightarrow> join_settled sources results = Fulfilled (concat (map contribution results)))
   \<and> (\<forall>result. is_rejected result \<longrightarrow> contribution result = [])
   \<and> ((\<forall>src \<in> set sources. is_rejected (collectFromSourceWithRetry fetch src))
        \<longrightarrow> collectFromAllSources fetch sources = Fulfilled [])"
proof (intro conjI)
  have "join_settled sources (map (collectFromSourceWithRetry fetch) sources)
          = Fulfilled (concat (map contribution (map (collectFromSourceWithRetry fetch) sources)))"
    by (rule join_settled_concat) simp
  then show eq: "collectFromAllSources fetch sources
     = Fulfilled (concat (map (\<lambda>src. contribution (collectFromSourceWithRetry fetch src)) sources))"
    by (simp add: collectFromAllSources_def comp_def)
  show "length results = length sources
        \<longrightarrow> join_settled sources results = Fulfilled (concat (map contribution results))"
    using join_settled_concat by blast
  show rej: "\<forall>result. is_rejected result \<longrightarrow> contribution result = []"
    by (auto simp: is_rejected_def contribution_def split: settled.splits)
  show "(\<forall>src \<in> set sources. is_rejected (collectFromSourceWithRetry fetch src))
        \<longrightarrow> collectFromAllSources fetch sources = Fulfilled []"
  proof
    assume "\<forall>src \<in> set sources. is_rejected (collectFromSourceWithRetry fetch src)"
    then have "\<forall>src \<in> set sources. contribution (collectFromSourceWithRetry fetch src) = []"
      using rej by blast
    then have "concat (map (\<lambda>src. contribution (collectFromSourceWithRetry fetch src)) sources) = []"
      by (rule concat_all_empty)
    with eq show "collectFromAllSources fetch sources = Fulfilled []" by simp
  qed
qed

text \<open>
  Three sources: the first succeeds, the second fails three times, the third succeeds
  in its second attempt; and the same sources when every attempt fails.
\<close>

theorem collectFromAllSources_partial_failure_witness:
  "collectFromAllSources testFeeds testSources
     = Fulfilled [testItem ''a1'' ''ua1'' 0, testItem ''a2'' ''ua2'' 0, testItem ''c1'' ''uc1'' 0]
   \<and> is_rejected (collectFromSourceWithRetry testFeeds (testSources ! 1))
   \<and> join_settled testSources
        [Rejected ''x'', Fulfilled [testItem ''c1'' ''uc1'' 0], Fulfilled [testItem ''a1'' ''ua1'' 0]]
      = Fulfilled [testItem ''c1'' ''uc1'' 0, testItem ''a1'' ''ua1'' 0]
   \<and> is_rejected (collectFromSourceWithRetry failingFeeds (testSources ! 0))
   \<and> is_rejected (collectFromSourceWithRetry failingFeeds (testSources ! 1))
   \<and> is_rejected (collectFromSourceWithRetry failingFeeds (testSources ! 2))
   \<and> collectFromAllSources failingFeeds testSources = Fulfilled []"
  using collectFromAllSources_partial_failure[of testFeeds testSources
          "[Rejected ''x'', Fulfilled [testItem ''c1'' ''uc1'' 0], Fulfilled [testItem ''a1'' ''ua1'' 0]]"]
        collectFromAllSources_partial_failure[of failingFeeds testSources "[]"]
  by (simp add: collector_eval)

section \<open>Facts about the scheduler\<close>

lemma completeCollection_result:
  "fst (completeCollection clock ok n err s)
     = \<lparr>success = ok, itemsCollected = n, duration = endTime clock - startTime clock, error = err\<rparr>"
  by (simp add: completeCollection_def Let_def)

lemma completeCollection_isRunning:
  "\<not> isRunning (snd (completeCollection clock ok n err s))"
  by (simp add: completeCollection_def Let_def)

lemma executeCollection_resume_fulfilled:
  "success (fst (executeCollection_resume lower clock (Fulfilled collectedNews) s))
   \<and> error (fst (executeCollection_resume lower clock (Fulfilled collectedNews) s)) = None
   \<and> \<not> isRunning (snd (executeCollection_resume lower clock (Fulfilled collectedNews) s))"
  by (simp add: executeCollection_resume_def completeCollection_result completeCollection_isRunning
      split_beta Let_def)

lemma executeCollection_resume_rejected:
  "fst (executeCollection_resume lower clock (Rejected msg) s)
     = \<lparr>success = False, itemsCollected = 0, duration = endTime clock - startTime clock,
        error = Some msg\<rparr>"
  by (simp add: executeCollection_resume_def completeCollection_result)

lemma collectFromAllSources_fulfils:
  "\<exists>collectedNews. collectFromAllSources fetch sources = Fulfilled collectedNews"
  by (simp add: collectFromAllSources_def join_settled_def)

section \<open>Claims about the scheduler\<close>

text \<open>
  C2 (as amended). When the flag \<open>isRunning\<close> is set, a trigger (manual or from the
  timer) returns at once the result with \<open>success = false\<close>, \<open>itemsCollected = 0\<close> and
  the error string \<open>Collection already in progress\<close>; the scheduler, its store and its
  classifier are left as they were, so nothing is fetched, classified, stored or queued,
  and the outcome is a value, not an exception. When the flag is not set, a first
  trigger sets it and suspends; a second trigger that arrives before the first has
  resumed gets that failure, and the first completes with \<open>success = true\<close> and clears
  the flag.
\<close>

theorem executeCollection_mutual_exclusion:
  "(isRunning s \<longrightarrow>
      executeCollection_enter s
        = (Some \<lparr>success = False, itemsCollected = 0, duration = 0,
                 error = Some ''Collection already in progress''\<rparr>, s)
      \<and> executeCollectionManually_enter s = executeCollection_enter s
      \<and> cronCallback_enter s = executeCollection_enter s
      \<and> executeCollection lower fetch sources clock s
        = (\<lparr>success = False, itemsCollected = 0, duration = 0,
             error = Some ''Collection already in progress''\<rparr>, s))
   \<and> (\<not> isRunning s \<longrightarrow>
      fst (executeCollection_enter s) = None
      \<and> isRunning (snd (executeCollection_enter s))
      \<and> executeCollection_enter (snd (executeCollection_enter s))
        = (Some conflictResult, snd (executeCollection_enter s))
      \<and> \<not> success conflictResult
      \<and> success (fst (executeCollection_resume lower clock (collectFromAllSources fetch sources)
                        (snd (executeCollection_enter s))))
      \<and> error (fst (executeCollection_resume lower clock (collectFromAllSources fetch sources)
                        (snd (executeCollection_enter s)))) = None
      \<and> \<not> isRunning (snd (executeCollection_resume lower clock (collectFromAllSources fetch sources)
                        (snd (executeCollection_enter s)))))"
proof (intro conjI; rule impI)
  assume "isRunning s"
  then show "executeCollection_enter s
        = (Some \<lparr>success = False, itemsCollected = 0, duration = 0,
                 error = Some ''Collection already in progress''\<rparr>, s)
      \<and> executeCollectionManually_enter s = executeCollection_enter s
      \<and> cronCallback_enter s = executeCollection_enter s
      \<and> executeCollection lower fetch sources clock s
        = (\<lparr>success = False, itemsCollected = 0, duration = 0,
             error = Some ''Collection already in progress''\<rparr>, s)"
    by (simp add: executeCollection_enter_def conflictResult_def executeCollection_def
        executeCollectionManually_enter_def cronCallback_enter_def)
next
  assume idle: "\<not> isRunning s"
  obtain collectedNews where c: "collectFromAllSources fetch sources = Fulfilled collectedNews"
    using collectFromAllSources_fulfils by blast
  show "fst (executeCollection_enter s) = None
      \<and> isRunning (snd (executeCollection_enter s))
      \<and> executeCollection_enter (snd (executeCollection_enter s))
        = (Some conflictResult, snd (executeCollection_enter s))
      \<and> \<not> success conflictResult
      \<and> success (fst (executeCollection_resume lower clock (collectFromAllSources fetch sources)
                        (snd (executeCollection_enter s))))
      \<and> error (fst (executeCollection_resume lower clock (collectFromAllSources fetch sources)
                        (snd (executeCollection_enter s)))) = None
      \<and> \<not> isRunning (snd (executeCollection_resume lower clock (collectFromAllSources fetch sources)
                        (snd (executeCollection_enter s))))"
    unfolding c using idle executeCollection_resume_fulfilled
    by (simp add: executeCollection_enter_def conflictResult_def)
qed

text \<open>
  From an idle scheduler: the first trigger starts a run, a manual trigger during it
  is refused and counts no run, and the first run succeeds.
\<close>

theorem executeCollection_mutual_exclusion_witness:
  "\<not> isRunning idleScheduler
   \<and> isRunning (snd (executeCollection_enter idleScheduler))
   \<and> executeCollectionManually_enter (snd (executeCollection_enter idleScheduler))
       = (Some \<lparr>success = False, itemsCollected = 0, duration = 0,
                error = Some ''Collection already in progress''\<rparr>,
          snd (executeCollection_enter idleScheduler))
   \<and> success (fst (executeCollection_resume toLowerCase_ascii testClock (collectFromAllSources testFeeds testSources)
                     (snd (executeCollection_enter idleScheduler))))
   \<and> totalRuns (stats (snd (executeCollection_enter (snd (executeCollection_enter idleScheduler))))) = 1"
  using executeCollection_mutual_exclusion
          [of idleScheduler toLowerCase_ascii testFeeds testSources testClock]
        executeCollection_mutual_exclusion
          [of "snd (executeCollection_enter idleScheduler)" toLowerCase_ascii testFeeds testSources
             testClock]
  by (simp add: idleScheduler_def newSchedulerService_def executeCollection_enter_def
      initialStats_def conflictResult_def)

text \<open>
  C2 as stated names the error string \<open>already in progress\<close>; the string the code
  returns, and its test compares with, is \<open>Collection already in progress\<close>.
\<close>

theorem executeCollection_conflict_string_counterexample:
  "error (the (fst (executeCollection_enter (snd (executeCollection_enter idleScheduler)))))
     = Some ''Collection already in progress''
   \<and> error (the (fst (executeCollection_enter (snd (executeCollection_enter idleScheduler)))))
     \<noteq> Some ''already in progress''"
  by (simp add: idleScheduler_def newSchedulerService_def executeCollection_enter_def
      conflictResult_def)

end
